theory Spec2Isabelle
  imports Main
begin

section \<open>Values, property keys and containers\<close>

text \<open>
  The engine works on JavaScript values. A value is a primitive, the \<open>deleted\<close> symbol of
  \<open>symbols.ts\<close>, a function, a reference to an object of the heap, or the backing target
  of a proxy (what \<open>proxy[proxyTarget]\<close> evaluates to). Strict equality \<open>===\<close> is
  equality of these values: references are compared by address.

  A property key is an array index, a string, or the \<open>proxyTarget\<close> symbol. The string
  \<open>length\<close> is \<open>Name ''length''\<close>; a canonical index string such as \<open>"0"\<close> is
  \<open>Idx 0\<close>, never a \<open>Name\<close>.
\<close>

type_synonym addr = nat

datatype pkey = Idx nat | Name string | ProxyTarget

datatype val =
    Undefined | Null | Bool bool | Num int | Str string
  | Deleted | Fn nat | Ref addr | Target addr

text \<open>
  An error is an exception of the program. \<open>NotModelled\<close> is not one: it ends a run of
  the model at a step whose outcome in the program the model does not determine.
\<close>

datatype error = TypeError string | RangeError string | NotModelled string


text \<open>
  An object that is not a proxy is a container: its kind (an array, an object whose prototype
  is \<open>Object.prototype\<close>, an object without prototype, or an instance of anything else),
  the \<open>length\<close> of an array, and its own properties in the order \<open>Reflect.ownKeys\<close>
  reports them: index keys ascending, then strings in creation order. Properties are
  writable data properties; inherited properties, accessors (user code) and frozen or sealed
  objects are outside the model.
\<close>

datatype ckind = ArrayKind | ObjectKind | NullProtoKind | CustomKind

record container =
  ckind :: ckind
  alength :: nat
  props :: "(pkey \<times> val) list"

definition klength :: pkey where
  "klength = Name ''length''"

definition is_array_c :: "container \<Rightarrow> bool" where
  "is_array_c c = (ckind c = ArrayKind)"

fun is_idx :: "pkey \<Rightarrow> bool" where
  "is_idx (Idx i) = True"
| "is_idx k = False"

text \<open>\<open>Reflect.getOwnPropertyDescriptor(c, k)\<close>, reduced to the value of the data property.\<close>

definition get_own :: "container \<Rightarrow> pkey \<Rightarrow> val option" where
  "get_own c k =
     (if is_array_c c \<and> k = klength then Some (Num (int (alength c)))
      else map_of (props c) k)"

definition has_own :: "container \<Rightarrow> pkey \<Rightarrow> bool" where
  "has_own c k = (get_own c k \<noteq> None)"

text \<open>\<open>c[k]\<close> on a container.\<close>

definition obj_get :: "container \<Rightarrow> pkey \<Rightarrow> val" where
  "obj_get c k = (case get_own c k of Some v \<Rightarrow> v | None \<Rightarrow> Undefined)"

text \<open>\<open>Reflect.ownKeys(c)\<close>: an array reports \<open>length\<close> after its indices.\<close>

definition own_keys :: "container \<Rightarrow> pkey list" where
  "own_keys c =
     (let ks = map fst (props c)
      in if is_array_c c then filter is_idx ks @ [klength] @ filter (\<lambda>k. \<not> is_idx k) ks
         else ks)"

text \<open>
  Where a new property lands in the key order: an index goes before every larger index and
  before every string; a string goes last.
\<close>

fun key_before :: "pkey \<Rightarrow> pkey \<Rightarrow> bool" where
  "key_before (Idx i) (Idx j) = (i < j)"
| "key_before (Idx i) k = True"
| "key_before k k' = False"

fun ins_prop :: "pkey \<Rightarrow> val \<Rightarrow> (pkey \<times> val) list \<Rightarrow> (pkey \<times> val) list" where
  "ins_prop k v [] = [(k, v)]"
| "ins_prop k v (p # ps) =
     (if key_before k (fst p) then (k, v) # p # ps else p # ins_prop k v ps)"

fun upd_prop :: "pkey \<Rightarrow> val \<Rightarrow> (pkey \<times> val) list \<Rightarrow> (pkey \<times> val) list" where
  "upd_prop k v [] = []"
| "upd_prop k v (p # ps) = (if fst p = k then (k, v) # ps else p # upd_prop k v ps)"

definition put_prop :: "pkey \<Rightarrow> val \<Rightarrow> (pkey \<times> val) list \<Rightarrow> (pkey \<times> val) list" where
  "put_prop k v ps = (if map_of ps k = None then ins_prop k v ps else upd_prop k v ps)"

definition del_prop :: "pkey \<Rightarrow> (pkey \<times> val) list \<Rightarrow> (pkey \<times> val) list" where
  "del_prop k ps = filter (\<lambda>p. fst p \<noteq> k) ps"

text \<open>
  The number a value stands for when it is assigned to the \<open>length\<close> of an array, when
  that is a valid array length: \<open>ToNumber\<close> of the value has to be an integer below
  \<open>2^32\<close>. \<open>null\<close> is 0, a boolean is 0 or 1, a string of decimal digits is the number
  it spells and the empty string is 0; \<open>undefined\<close> is \<open>NaN\<close>, which is no length.

  \<open>ToNumber\<close> of any other string (blanks, signs, fractions, exponents, other radices)
  and of an object or a function (it calls their \<open>valueOf\<close> and \<open>toString\<close>) is
  outside the model: \<open>length_known\<close> is \<open>False\<close> of such a value.
\<close>

definition digit_val :: "char \<Rightarrow> nat" where
  "digit_val ch = length (takeWhile (\<lambda>d. d \<noteq> ch) ''0123456789'')"

definition is_digit :: "char \<Rightarrow> bool" where
  "is_digit ch = (digit_val ch < 10)"

definition digits_value :: "string \<Rightarrow> int" where
  "digits_value s = foldl (\<lambda>n ch. 10 * n + int (digit_val ch)) 0 s"

fun to_length :: "val \<Rightarrow> nat option" where
  "to_length (Num n) = (if 0 \<le> n \<and> n < 4294967296 then Some (nat n) else None)"
| "to_length Null = Some 0"
| "to_length (Bool b) = Some (if b then 1 else 0)"
| "to_length (Str s) =
     (if list_all is_digit s \<and> digits_value s < 4294967296 then Some (nat (digits_value s))
      else None)"
| "to_length v = None"

fun length_known :: "val \<Rightarrow> bool" where
  "length_known (Str s) = list_all is_digit s"
| "length_known (Ref a) = False"
| "length_known (Fn f) = False"
| "length_known (Target a) = False"
| "length_known v = True"

fun idx_below :: "nat \<Rightarrow> pkey \<times> val \<Rightarrow> bool" where
  "idx_below n (Idx i, v) = (i < n)"
| "idx_below n (k, v) = True"

text \<open>
  \<open>c[k] = v\<close> on a container. Writing an index of an array at or beyond its \<open>length\<close>
  extends the \<open>length\<close>; writing a \<open>length\<close> removes every element at an index at or
  beyond it, and an invalid \<open>length\<close> raises: a \<open>TypeError\<close> for a symbol, which has
  no number, and a \<open>RangeError\<close> otherwise.
\<close>

definition obj_set :: "container \<Rightarrow> pkey \<Rightarrow> val \<Rightarrow> error + container" where
  "obj_set c k v =
     (if is_array_c c \<and> k = klength then
        (if \<not> length_known v then Inl (NotModelled ''ToNumber'')
         else if v = Deleted then Inl (TypeError ''Cannot convert a Symbol value to a number'')
         else
           (case to_length v of
              None \<Rightarrow> Inl (RangeError ''Invalid array length'')
            | Some n \<Rightarrow> Inr (c\<lparr>alength := n, props := filter (idx_below n) (props c)\<rparr>)))
      else
        (case k of
           Idx i \<Rightarrow>
             Inr (c\<lparr>alength := (if is_array_c c then max (alength c) (Suc i) else alength c),
                   props := put_prop k v (props c)\<rparr>)
         | _ \<Rightarrow> Inr (c\<lparr>props := put_prop k v (props c)\<rparr>)))"

text \<open>
  \<open>delete c[k]\<close> in strict code (the sources are modules): the \<open>length\<close> of an array
  is not configurable, so deleting it raises.
\<close>

definition obj_delete :: "container \<Rightarrow> pkey \<Rightarrow> error + container" where
  "obj_delete c k =
     (if is_array_c c \<and> k = klength then
        Inl (TypeError ''Cannot delete property 'length' of [object Array]'')
      else Inr (c\<lparr>props := del_prop k (props c)\<rparr>))"

text \<open>
  \<open>desc.configurable\<close> of an own property of a patch table: every property the engine
  creates there is configurable, the \<open>length\<close> of an array is not.
\<close>

definition configurable :: "container \<Rightarrow> pkey \<Rightarrow> bool" where
  "configurable c k = (\<not> (is_array_c c \<and> k = klength))"

fun truthy :: "val \<Rightarrow> bool" where
  "truthy Undefined = False"
| "truthy Null = False"
| "truthy (Bool b) = b"
| "truthy (Num n) = (n \<noteq> 0)"
| "truthy (Str s) = (s \<noteq> [])"
| "truthy v = True"

section \<open>The heap: containers and proxies\<close>

text \<open>
  \<open>IProxyTarget\<close>. The proxy and its backing target are one object of the heap: the
  address is the identity of the proxy, and \<open>Target a\<close> is the target of the proxy at
  \<open>a\<close>. \<open>patches\<close> and \<open>proxies\<close> are \<open>null\<close> until first used; \<open>proxies\<close>
  is a prototype-less object whose values are references to proxies.
\<close>

record target =
  source :: addr
  origin :: addr
  patches :: "container option"
  proxies :: "container option"
  referenceCheck :: bool

datatype hobj = Container container | Proxy target

type_synonym heap = "hobj list"

definition heap_at :: "heap \<Rightarrow> addr \<Rightarrow> hobj option" where
  "heap_at h a = (if a < length h then Some (h ! a) else None)"

definition alloc :: "heap \<Rightarrow> hobj \<Rightarrow> heap \<times> addr" where
  "alloc h x = (h @ [x], length h)"

definition target_at :: "heap \<Rightarrow> addr \<Rightarrow> target option" where
  "target_at h a = (case heap_at h a of Some (Proxy t) \<Rightarrow> Some t | _ \<Rightarrow> None)"

definition container_at :: "heap \<Rightarrow> addr \<Rightarrow> container option" where
  "container_at h a = (case heap_at h a of Some (Container c) \<Rightarrow> Some c | _ \<Rightarrow> None)"

definition isProxy :: "heap \<Rightarrow> val \<Rightarrow> bool" where
  "isProxy h v = (case v of Ref a \<Rightarrow> target_at h a \<noteq> None | _ \<Rightarrow> False)"

definition isProxyable :: "heap \<Rightarrow> val \<Rightarrow> bool" where
  "isProxyable h v =
     (case v of
        Ref a \<Rightarrow>
          (case heap_at h a of
             Some (Container c) \<Rightarrow> ckind c \<noteq> CustomKind
           | Some (Proxy t) \<Rightarrow> True
           | None \<Rightarrow> False)
      | _ \<Rightarrow> False)"

text \<open>\<open>Array.isArray(v)\<close>: a proxy of an array is an array.\<close>

definition isArray :: "heap \<Rightarrow> val \<Rightarrow> bool" where
  "isArray h v =
     (case v of
        Ref a \<Rightarrow>
          (case heap_at h a of
             Some (Container c) \<Rightarrow> is_array_c c
           | Some (Proxy t) \<Rightarrow>
               (case container_at h (source t) of Some c \<Rightarrow> is_array_c c | None \<Rightarrow> False)
           | None \<Rightarrow> False)
      | _ \<Rightarrow> False)"

definition toSource :: "heap \<Rightarrow> val \<Rightarrow> val" where
  "toSource h v =
     (case v of
        Ref a \<Rightarrow> (case target_at h a of Some t \<Rightarrow> Ref (source t) | None \<Rightarrow> v)
      | _ \<Rightarrow> v)"

text \<open>The own data property of the source; a source is a container, never a proxy.\<close>

definition source_desc :: "heap \<Rightarrow> target \<Rightarrow> pkey \<Rightarrow> val option" where
  "source_desc h t k = (case container_at h (source t) of Some c \<Rightarrow> get_own c k | None \<Rightarrow> None)"

definition source_is_array :: "heap \<Rightarrow> target \<Rightarrow> bool" where
  "source_is_array h t = (case container_at h (source t) of Some c \<Rightarrow> is_array_c c | None \<Rightarrow> False)"

definition source_length :: "heap \<Rightarrow> target \<Rightarrow> nat" where
  "source_length h t = (case container_at h (source t) of Some c \<Rightarrow> alength c | None \<Rightarrow> 0)"

definition hasOwnProperty :: "container option \<Rightarrow> pkey \<Rightarrow> bool" where
  "hasOwnProperty obj k = (case obj of None \<Rightarrow> False | Some c \<Rightarrow> has_own c k)"

definition empty_object :: "ckind \<Rightarrow> container" where
  "empty_object kd = \<lparr>ckind = kd, alength = 0, props = []\<rparr>"

definition new_array :: "nat \<Rightarrow> container" where
  "new_array n = \<lparr>ckind = ArrayKind, alength = n, props = []\<rparr>"

definition ensurePatches :: "heap \<Rightarrow> target \<Rightarrow> container" where
  "ensurePatches h t =
     (case patches t of
        Some p \<Rightarrow> p
      | None \<Rightarrow> if source_is_array h t then new_array (source_length h t)
                else empty_object NullProtoKind)"

definition ensureProxies :: "target \<Rightarrow> container" where
  "ensureProxies t = (case proxies t of Some p \<Rightarrow> p | None \<Rightarrow> empty_object NullProtoKind)"

text \<open>
  \<open>createProxy(value, options)\<close> for an object \<open>value\<close> at address \<open>s\<close>: a proxy is
  returned as it is, anything else gets a new proxy, which is its own \<open>origin\<close>.
\<close>

definition createProxy :: "heap \<Rightarrow> addr \<Rightarrow> bool \<Rightarrow> heap \<times> addr" where
  "createProxy h s opt =
     (if isProxy h (Ref s) then (h, s)
      else alloc h (Proxy \<lparr>source = s, origin = length h, patches = None,
                            proxies = None, referenceCheck = opt\<rparr>))"

definition set_target :: "heap \<Rightarrow> addr \<Rightarrow> target \<Rightarrow> heap" where
  "set_target h a t = h[a := Proxy t]"

definition set_container :: "heap \<Rightarrow> addr \<Rightarrow> container \<Rightarrow> heap" where
  "set_container h a c = h[a := Container c]"

section \<open>The proxy handler\<close>

text \<open>
  An operation on the heap returns the new heap with its result, or throws an error and leaves
  the heap as it was when the error was thrown. \<open>OutOfFuel\<close> is for the loops further
  down: the loop did not finish within the steps it was given.
\<close>

datatype 'a res = Ok heap 'a | Throw heap error | OutOfFuel

definition rbind :: "'a res \<Rightarrow> (heap \<Rightarrow> 'a \<Rightarrow> 'b res) \<Rightarrow> 'b res" where
  "rbind m f = (case m of Ok h x \<Rightarrow> f h x | Throw h e \<Rightarrow> Throw h e | OutOfFuel \<Rightarrow> OutOfFuel)"

definition lift :: "heap \<Rightarrow> error + 'a \<Rightarrow> ('a \<Rightarrow> 'b res) \<Rightarrow> 'b res" where
  "lift h m f = (case m of Inl e \<Rightarrow> Throw h e | Inr x \<Rightarrow> f x)"

text \<open>
  Every trap takes the heap and the address of the proxy. A trap applied to something that is
  not a proxy is an error of the model; it does not arise from a proxy.
\<close>

definition not_a_proxy :: "heap \<Rightarrow> 'a res" where
  "not_a_proxy h = Throw h (TypeError ''not a proxy'')"

definition trapSetPrototypeOf :: "heap \<Rightarrow> addr \<Rightarrow> val \<Rightarrow> bool res" where
  "trapSetPrototypeOf h a v = Throw h (TypeError ''Surefire does not support Object.setPrototypeOf'')"

definition trapIsExtensible :: "heap \<Rightarrow> addr \<Rightarrow> bool res" where
  "trapIsExtensible h a = Ok h True"

definition trapPreventExtensions :: "heap \<Rightarrow> addr \<Rightarrow> bool res" where
  "trapPreventExtensions h a = Throw h (TypeError ''Surefire does not support Object.preventExtensions'')"

definition trapDefineProperty :: "heap \<Rightarrow> addr \<Rightarrow> pkey \<Rightarrow> val \<Rightarrow> bool res" where
  "trapDefineProperty h a k attributes = Throw h (TypeError ''Surefire does not support Object.defineProperty'')"

text \<open>The descriptor is reduced to its value: \<open>None\<close> is \<open>undefined\<close>.\<close>

definition trapGetOwnPropertyDescriptor :: "heap \<Rightarrow> addr \<Rightarrow> pkey \<Rightarrow> val option res" where
  "trapGetOwnPropertyDescriptor h a k =
     (case target_at h a of
        None \<Rightarrow> not_a_proxy h
      | Some t \<Rightarrow> Ok h (source_desc h t k))"

definition trapHas :: "heap \<Rightarrow> addr \<Rightarrow> pkey \<Rightarrow> bool res" where
  "trapHas h a k =
     (case target_at h a of
        None \<Rightarrow> not_a_proxy h
      | Some t \<Rightarrow>
          if k = ProxyTarget then Ok h True
          else if hasOwnProperty (patches t) k
          then Ok h (obj_get (the (patches t)) k \<noteq> Deleted)
          else Ok h (source_desc h t k \<noteq> None))"

text \<open>
  The part of \<open>trapGet\<close> that creates the proxy of a proxyable property value at \<open>s\<close>,
  stores it in \<open>proxies\<close> and sets its \<open>origin\<close> to the proxy that was read.
\<close>

definition derive_proxy :: "heap \<Rightarrow> addr \<Rightarrow> target \<Rightarrow> pkey \<Rightarrow> addr \<Rightarrow> val res" where
  "derive_proxy h a t k s =
     (case createProxy h s (referenceCheck t) of
        (h1, c) \<Rightarrow>
          lift h1 (obj_set (ensureProxies t) k (Ref c)) (\<lambda>px.
            let h2 = set_target h1 a (t\<lparr>proxies := Some px\<rparr>)
            in case target_at h2 c of
                 None \<Rightarrow> not_a_proxy h2
               | Some tc \<Rightarrow> Ok (set_target h2 c (tc\<lparr>origin := a\<rparr>)) (Ref c)))"

text \<open>
  \<open>target.proxies[key][proxyTarget].source === desc.value\<close>, for an own key of
  \<open>proxies\<close>: reading the target of something that is not a proxy throws.
\<close>

definition cached_source :: "heap \<Rightarrow> val \<Rightarrow> val option" where
  "cached_source h v =
     (case v of
        Ref c \<Rightarrow> (case target_at h c of Some tc \<Rightarrow> Some (Ref (source tc)) | None \<Rightarrow> None)
      | _ \<Rightarrow> None)"

definition trapGet :: "heap \<Rightarrow> addr \<Rightarrow> pkey \<Rightarrow> val res" where
  "trapGet h a k =
     (case target_at h a of
        None \<Rightarrow> not_a_proxy h
      | Some t \<Rightarrow>
          if k = ProxyTarget then Ok h (Target a)
          else if hasOwnProperty (patches t) k then
            (let v = obj_get (the (patches t)) k
             in Ok h (if v \<noteq> Deleted then v else Undefined))
          else
            (case source_desc h t k of
               None \<Rightarrow> Ok h Undefined
             | Some dv \<Rightarrow>
                 if truthy dv then
                   (let fresh = (if isProxyable h dv
                                 then (case dv of Ref s \<Rightarrow> derive_proxy h a t k s | _ \<Rightarrow> Ok h dv)
                                 else Ok h dv)
                    in if hasOwnProperty (proxies t) k then
                         (case cached_source h (obj_get (the (proxies t)) k) of
                            None \<Rightarrow> not_a_proxy h
                          | Some sv \<Rightarrow>
                              if sv = dv then Ok h (obj_get (the (proxies t)) k) else fresh)
                       else fresh)
                 else Ok h dv))"

text \<open>
  The source has no setter in this model, so \<open>trapSet\<close> starts at the test for a write
  that changes nothing. \<open>target.proxies[key]\<close> is \<open>undefined\<close> when \<open>proxies\<close> has
  no such key.
\<close>

definition trapSet :: "heap \<Rightarrow> addr \<Rightarrow> pkey \<Rightarrow> val \<Rightarrow> bool res" where
  "trapSet h a k v =
     (case target_at h a of
        None \<Rightarrow> not_a_proxy h
      | Some t \<Rightarrow>
          if k = ProxyTarget then Throw h (TypeError ''Surefire target is readonly'')
          else
            (let desc = source_desc h t k;
                 write = (let p = ensurePatches h t;
                              h1 = set_target h a (t\<lparr>patches := Some p\<rparr>)
                          in lift h1 (obj_set p k v) (\<lambda>p'.
                               Ok (set_target h1 a (t\<lparr>patches := Some p'\<rparr>)) True))
             in if desc \<noteq> None
                   \<and> ((proxies t \<noteq> None \<and> obj_get (the (proxies t)) k = v)
                        \<or> (referenceCheck t \<and> the desc = v \<and> \<not> isProxy h v))
                then
                  (case patches t of
                     None \<Rightarrow> Ok h True
                   | Some p \<Rightarrow>
                       if \<not> has_own p k then Ok h True
                       else if configurable p k then
                         lift h (obj_delete p k) (\<lambda>p'.
                           Ok (set_target h a (t\<lparr>patches := Some p'\<rparr>)) True)
                       else write)
                else write))"

definition trapDeleteProperty :: "heap \<Rightarrow> addr \<Rightarrow> pkey \<Rightarrow> bool res" where
  "trapDeleteProperty h a k =
     (case target_at h a of
        None \<Rightarrow> not_a_proxy h
      | Some t \<Rightarrow>
          if k = ProxyTarget then Throw h (TypeError ''Surefire target is readonly'')
          else if source_desc h t k \<noteq> None then
            (let p = ensurePatches h t;
                 h1 = set_target h a (t\<lparr>patches := Some p\<rparr>)
             in lift h1 (obj_delete p k) (\<lambda>p1.
                  lift h1 (obj_set p1 k Deleted) (\<lambda>p2.
                    Ok (set_target h1 a (t\<lparr>patches := Some p2\<rparr>)) True)))
          else if hasOwnProperty (patches t) k then
            lift h (obj_delete (the (patches t)) k) (\<lambda>p'.
              Ok (set_target h a (t\<lparr>patches := Some p'\<rparr>)) True)
          else Ok h True)"

text \<open>
  \<open>trapOwnKeys\<close>: the loop over the keys of \<open>patches\<close>, which appends a key the source
  does not have and removes one whose patch is \<open>deleted\<close>.
\<close>

fun own_keys_loop :: "container \<Rightarrow> pkey list \<Rightarrow> pkey list \<Rightarrow> pkey list" where
  "own_keys_loop p [] sourceKeys = sourceKeys"
| "own_keys_loop p (pk # pks) sourceKeys =
     (if pk \<notin> set sourceKeys then own_keys_loop p pks (sourceKeys @ [pk])
      else if obj_get p pk = Deleted then own_keys_loop p pks (remove1 pk sourceKeys)
      else own_keys_loop p pks sourceKeys)"

definition trapOwnKeys :: "heap \<Rightarrow> addr \<Rightarrow> pkey list res" where
  "trapOwnKeys h a =
     (case target_at h a of
        None \<Rightarrow> not_a_proxy h
      | Some t \<Rightarrow>
          (let sourceKeys = (case container_at h (source t) of Some c \<Rightarrow> own_keys c | None \<Rightarrow> [])
           in case patches t of
                None \<Rightarrow> Ok h sourceKeys
              | Some p \<Rightarrow> Ok h (own_keys_loop p (own_keys p) sourceKeys)))"

section \<open>Property access on any value\<close>

text \<open>
  \<open>v[k]\<close>, \<open>v[k] = x\<close>, \<open>delete v[k]\<close>, \<open>hasOwnProperty(v, k)\<close> and
  \<open>Reflect.ownKeys(v)\<close> as \<open>captureSnapshot\<close> and \<open>shallowClone\<close> use them, on a
  container, on a proxy (through its traps) or on a primitive. Own properties of functions
  and of backing targets are not modelled.
\<close>

definition str_get :: "string \<Rightarrow> pkey \<Rightarrow> val option" where
  "str_get s k =
     (case k of
        Idx i \<Rightarrow> if i < length s then Some (Str [s ! i]) else None
      | Name n \<Rightarrow> if k = klength then Some (Num (int (length s))) else None
      | ProxyTarget \<Rightarrow> None)"

definition js_get :: "heap \<Rightarrow> val \<Rightarrow> pkey \<Rightarrow> val res" where
  "js_get h v k =
     (case v of
        Ref a \<Rightarrow>
          (case heap_at h a of
             Some (Container c) \<Rightarrow> Ok h (obj_get c k)
           | Some (Proxy t) \<Rightarrow> trapGet h a k
           | None \<Rightarrow> Throw h (TypeError ''dangling reference''))
      | Undefined \<Rightarrow> Throw h (TypeError ''Cannot read properties of undefined'')
      | Null \<Rightarrow> Throw h (TypeError ''Cannot read properties of null'')
      | Str s \<Rightarrow> Ok h (case str_get s k of Some x \<Rightarrow> x | None \<Rightarrow> Undefined)
      | _ \<Rightarrow> Ok h Undefined)"

definition js_set :: "heap \<Rightarrow> val \<Rightarrow> pkey \<Rightarrow> val \<Rightarrow> unit res" where
  "js_set h v k x =
     (case v of
        Ref a \<Rightarrow>
          (case heap_at h a of
             Some (Container c) \<Rightarrow> lift h (obj_set c k x) (\<lambda>c'. Ok (set_container h a c') ())
           | Some (Proxy t) \<Rightarrow> rbind (trapSet h a k x) (\<lambda>h' b. Ok h' ())
           | None \<Rightarrow> Throw h (TypeError ''dangling reference''))
      | Undefined \<Rightarrow> Throw h (TypeError ''Cannot set properties of undefined'')
      | Null \<Rightarrow> Throw h (TypeError ''Cannot set properties of null'')
      | Fn f \<Rightarrow> Ok h ()
      | Target a \<Rightarrow> Ok h ()
      | _ \<Rightarrow> Throw h (TypeError ''Cannot create property on a primitive''))"

definition js_delete :: "heap \<Rightarrow> val \<Rightarrow> pkey \<Rightarrow> unit res" where
  "js_delete h v k =
     (case v of
        Ref a \<Rightarrow>
          (case heap_at h a of
             Some (Container c) \<Rightarrow> lift h (obj_delete c k) (\<lambda>c'. Ok (set_container h a c') ())
           | Some (Proxy t) \<Rightarrow> rbind (trapDeleteProperty h a k) (\<lambda>h' b. Ok h' ())
           | None \<Rightarrow> Throw h (TypeError ''dangling reference''))
      | Undefined \<Rightarrow> Throw h (TypeError ''Cannot convert undefined or null to object'')
      | Null \<Rightarrow> Throw h (TypeError ''Cannot convert undefined or null to object'')
      | Str s \<Rightarrow> if str_get s k = None then Ok h ()
                 else Throw h (TypeError ''Cannot delete property of a string'')
      | _ \<Rightarrow> Ok h ())"

definition hasOwnProperty_val :: "heap \<Rightarrow> val \<Rightarrow> pkey \<Rightarrow> bool res" where
  "hasOwnProperty_val h v k =
     (case v of
        Ref a \<Rightarrow>
          (case heap_at h a of
             Some (Container c) \<Rightarrow> Ok h (has_own c k)
           | Some (Proxy t) \<Rightarrow> rbind (trapGetOwnPropertyDescriptor h a k) (\<lambda>h' d. Ok h' (d \<noteq> None))
           | None \<Rightarrow> Throw h (TypeError ''dangling reference''))
      | Str s \<Rightarrow> Ok h (str_get s k \<noteq> None)
      | _ \<Rightarrow> Ok h False)"

definition js_own_keys :: "heap \<Rightarrow> val \<Rightarrow> pkey list res" where
  "js_own_keys h v =
     (case v of
        Ref a \<Rightarrow>
          (case heap_at h a of
             Some (Container c) \<Rightarrow> Ok h (own_keys c)
           | Some (Proxy t) \<Rightarrow> trapOwnKeys h a
           | None \<Rightarrow> Throw h (TypeError ''dangling reference''))
      | Fn f \<Rightarrow> Ok h []
      | Target a \<Rightarrow> Ok h []
      | _ \<Rightarrow> Throw h (TypeError ''Reflect.ownKeys called on non-object''))"

section \<open>shallowClone\<close>

fun clone_loop :: "heap \<Rightarrow> val \<Rightarrow> val \<Rightarrow> pkey list \<Rightarrow> unit res" where
  "clone_loop h obj v [] = Ok h ()"
| "clone_loop h obj v (k # ks) =
     rbind (js_get h v k) (\<lambda>h1 x.
       rbind (js_set h1 obj k x) (\<lambda>h2 u. clone_loop h2 obj v ks))"

definition is_object :: "val \<Rightarrow> bool" where
  "is_object v = (case v of Ref a \<Rightarrow> True | Target a \<Rightarrow> True | _ \<Rightarrow> False)"

definition shallowClone :: "heap \<Rightarrow> val \<Rightarrow> val res" where
  "shallowClone h v =
     (if isArray h v \<or> is_object v then
        (case alloc h (Container (if isArray h v then new_array 0 else empty_object ObjectKind)) of
           (h1, n) \<Rightarrow>
             rbind (js_own_keys h1 v) (\<lambda>h2 ks.
               rbind (clone_loop h2 (Ref n) v ks) (\<lambda>h3 u. Ok h3 (Ref n))))
      else Ok h v)"

section \<open>Traversal\<close>

fun merge_keys :: "pkey list \<Rightarrow> pkey list \<Rightarrow> pkey list" where
  "merge_keys patchedKeys [] = patchedKeys"
| "merge_keys patchedKeys (k # ks) =
     merge_keys (if k \<in> set patchedKeys then patchedKeys else patchedKeys @ [k]) ks"

text \<open>\<open>None\<close> is the \<open>undefined\<close> that a proxy without patches and proxies gives.\<close>

definition traversableOwnKeys :: "heap \<Rightarrow> val \<Rightarrow> pkey list option res" where
  "traversableOwnKeys h obj =
     (case (case obj of Ref a \<Rightarrow> target_at h a | _ \<Rightarrow> None) of
        None \<Rightarrow> rbind (js_own_keys h obj) (\<lambda>h' ks. Ok h' (Some ks))
      | Some t \<Rightarrow>
          (case map_option own_keys (patches t) of
             None \<Rightarrow> Ok h (map_option own_keys (proxies t))
           | Some patchedKeys \<Rightarrow>
               (case map_option own_keys (proxies t) of
                  None \<Rightarrow> Ok h (Some patchedKeys)
                | Some proxiedKeys \<Rightarrow> Ok h (Some (merge_keys patchedKeys proxiedKeys)))))"

text \<open>
  The four stacks of \<open>traverseProxyable0\<close>, of which the first \<open>i\<close> entries are live,
  are one list of frames, the root first: \<open>objStack\<close>, \<open>traversableKeysStack\<close>,
  \<open>traversableKeyIndexStack\<close> and \<open>keyStack\<close> are the four fields, and \<open>i\<close> is the
  length of the list. \<open>fkey\<close> of a frame is the key taken from its object to the object
  of the next frame.
\<close>

record frame =
  fobj :: val
  fkeys :: "pkey list option"
  fidx :: nat
  fkey :: "pkey option"

text \<open>
  The visitor gets the heap, its own state, the proxy, \<open>objStack\<close> up to \<open>stackDepth\<close>
  and \<open>keyStack\<close> up to \<open>stackDepth - 1\<close>. Its boolean result is \<open>False\<close> when the
  visitor returned the literal \<open>false\<close>.
\<close>

type_synonym 'vs visitor = "heap \<Rightarrow> 'vs \<Rightarrow> addr \<Rightarrow> val list \<Rightarrow> pkey list \<Rightarrow> (bool \<times> 'vs) res"

text \<open>
  The inner \<open>while\<close> of the proxy branch, from key index \<open>j\<close> over the remaining keys:
  the index, key and value to descend into, if there is one.
\<close>

fun scan_proxy :: "heap \<Rightarrow> target \<Rightarrow> pkey list \<Rightarrow> nat \<Rightarrow> error + (nat \<times> pkey \<times> val) option" where
  "scan_proxy h t [] j = Inr None"
| "scan_proxy h t (key # ks) j =
     (if patches t \<noteq> None \<and> hasOwnProperty (patches t) key then
        (let v = obj_get (the (patches t)) key
         in if \<not> isProxyable h v then scan_proxy h t ks (Suc j) else Inr (Some (j, key, v)))
      else
        (case proxies t of
           None \<Rightarrow> Inl (TypeError ''Cannot read properties of null'')
         | Some px \<Rightarrow> Inr (Some (j, key, obj_get px key))))"

text \<open>\<open>obj[key]\<close> for an object that is not a proxy.\<close>

definition plain_get :: "heap \<Rightarrow> val \<Rightarrow> pkey \<Rightarrow> val" where
  "plain_get h obj k =
     (case obj of
        Ref a \<Rightarrow> (case container_at h a of Some c \<Rightarrow> obj_get c k | None \<Rightarrow> Undefined)
      | Str s \<Rightarrow> (case str_get s k of Some x \<Rightarrow> x | None \<Rightarrow> Undefined)
      | _ \<Rightarrow> Undefined)"

fun scan_plain :: "heap \<Rightarrow> val \<Rightarrow> pkey list \<Rightarrow> nat \<Rightarrow> (nat \<times> pkey \<times> val) option" where
  "scan_plain h obj [] j = None"
| "scan_plain h obj (key # ks) j =
     (let v = plain_get h obj key
      in if isProxyable h v then Some (j, key, v) else scan_plain h obj ks (Suc j))"

definition proxy_addr :: "val \<Rightarrow> addr" where
  "proxy_addr v = (case v of Ref a \<Rightarrow> a | _ \<Rightarrow> 0)"

definition call_visitor :: "'vs visitor \<Rightarrow> heap \<Rightarrow> 'vs \<Rightarrow> frame list \<Rightarrow> (bool \<times> 'vs) res" where
  "call_visitor visitor h vs frames =
     visitor h vs (proxy_addr (fobj (last frames))) (map fobj frames)
       (map (\<lambda>f. case fkey f of Some k \<Rightarrow> k | None \<Rightarrow> Name ''undefined'') (butlast frames))"

definition push_frame :: "frame list \<Rightarrow> nat \<Rightarrow> pkey \<Rightarrow> val \<Rightarrow> pkey list option \<Rightarrow> frame list" where
  "push_frame frames j key v tk =
     butlast frames @ [(last frames)\<lparr>fidx := Suc j, fkey := Some key\<rparr>,
                       \<lparr>fobj = v, fkeys = tk, fidx = 0, fkey = None\<rparr>]"

text \<open>
  One round of the \<open>nextStack\<close> loop, for a stack that is not empty: the state of the
  visitor and the stack after the round.
\<close>

definition next_stack :: "'vs visitor \<Rightarrow> bool \<Rightarrow> heap \<Rightarrow> 'vs \<Rightarrow> frame list \<Rightarrow> ('vs \<times> frame list) res" where
  "next_stack visitor depthFirstOrder h vs frames =
     (let f = last frames; rest = butlast frames; obj = fobj f
      in case fkeys f of
           None \<Rightarrow>
             if isProxy h obj then
               rbind (call_visitor visitor h vs frames) (\<lambda>h1 r. Ok h1 (snd r, rest))
             else Ok h (vs, rest)
         | Some traversableKeys \<Rightarrow>
             if obj \<in> set (map fobj rest) then Ok h (vs, rest)
             else if isProxy h obj then
               rbind (if \<not> depthFirstOrder \<and> fidx f = 0 then call_visitor visitor h vs frames
                      else Ok h (True, vs)) (\<lambda>h1 r.
                 if \<not> fst r then Ok h1 (snd r, rest)
                 else
                   (case target_at h1 (proxy_addr obj) of
                      None \<Rightarrow> not_a_proxy h1
                    | Some t \<Rightarrow>
                        lift h1 (scan_proxy h1 t (drop (fidx f) traversableKeys) (fidx f)) (\<lambda>found.
                          case found of
                            Some (j, key, v) \<Rightarrow>
                              rbind (traversableOwnKeys h1 v) (\<lambda>h2 tk.
                                Ok h2 (snd r, push_frame frames j key v tk))
                          | None \<Rightarrow>
                              rbind (if depthFirstOrder then call_visitor visitor h1 (snd r) frames
                                     else Ok h1 (True, snd r)) (\<lambda>h2 r2.
                                Ok h2 (snd r2, rest)))))
             else
               (case scan_plain h obj (drop (fidx f) traversableKeys) (fidx f) of
                  Some (j, key, v) \<Rightarrow>
                    rbind (traversableOwnKeys h v) (\<lambda>h2 tk.
                      Ok h2 (vs, push_frame frames j key v tk))
                | None \<Rightarrow> Ok h (vs, rest)))"

text \<open>
  The loop \<open>while (i !== 0)\<close>, one round per unit of fuel.
\<close>

fun traverse_loop :: "nat \<Rightarrow> 'vs visitor \<Rightarrow> bool \<Rightarrow> heap \<Rightarrow> 'vs \<Rightarrow> frame list \<Rightarrow> 'vs res" where
  "traverse_loop 0 visitor depthFirstOrder h vs frames = OutOfFuel"
| "traverse_loop (Suc n) visitor depthFirstOrder h vs frames =
     (if frames = [] then Ok h vs
      else rbind (next_stack visitor depthFirstOrder h vs frames) (\<lambda>h1 s.
             traverse_loop n visitor depthFirstOrder h1 (fst s) (snd s)))"

definition traverseProxyable0 :: "nat \<Rightarrow> heap \<Rightarrow> val \<Rightarrow> 'vs visitor \<Rightarrow> bool \<Rightarrow> 'vs \<Rightarrow> 'vs res" where
  "traverseProxyable0 fuel h obj visitor depthFirstOrder vs =
     rbind (traversableOwnKeys h obj) (\<lambda>h1 tk.
       traverse_loop fuel visitor depthFirstOrder h1 vs
         [\<lparr>fobj = obj, fkeys = tk, fidx = 0, fkey = None\<rparr>])"

text \<open>
  \<open>traverseProxyable\<close> passes the visitor the slices of the stacks, which is what the
  visitor of the model gets already.
\<close>

definition traverseProxyable :: "nat \<Rightarrow> heap \<Rightarrow> val \<Rightarrow> 'vs visitor \<Rightarrow> bool \<Rightarrow> 'vs \<Rightarrow> 'vs res" where
  "traverseProxyable fuel h obj visitor depthFirstOrder vs =
     traverseProxyable0 fuel h obj visitor depthFirstOrder vs"

section \<open>captureSnapshot\<close>

definition key_at :: "pkey list \<Rightarrow> nat \<Rightarrow> pkey" where
  "key_at keys i = (if i < length keys then keys ! i else Name ''undefined'')"

text \<open>
  The comparison of the patches of the visited proxy with the base copy: whether some patch
  differs from the property of \<open>copyI\<close>, or \<open>copyI\<close> has no such own property.
\<close>

fun patched_loop :: "heap \<Rightarrow> container \<Rightarrow> val \<Rightarrow> pkey list \<Rightarrow> bool res" where
  "patched_loop h p copyI [] = Ok h False"
| "patched_loop h p copyI (key # ks) =
     rbind (js_get h copyI key) (\<lambda>h1 x.
       if obj_get p key \<noteq> x then Ok h1 True
       else rbind (hasOwnProperty_val h1 copyI key) (\<lambda>h2 b.
              if has_own p key \<noteq> b then Ok h2 True else patched_loop h2 p copyI ks))"

text \<open>
  The first loop of the visitor, from index \<open>i\<close> over the rest of the stack: it returns
  \<open>false\<close> from the visitor (\<open>Abort\<close>), or ends with \<open>stackPatched\<close> and
  \<open>proxyPatched\<close>.
\<close>

datatype walk = Abort | Walked bool bool

fun walk_down :: "heap \<Rightarrow> addr \<Rightarrow> pkey list \<Rightarrow> nat \<Rightarrow> val list \<Rightarrow> val \<Rightarrow> walk res" where
  "walk_down h proxy keys i [] copyI = Ok h (Walked False False)"
| "walk_down h proxy keys i (s # ss) copyI =
     (if ss = [] then
        (case target_at h proxy of
           None \<Rightarrow> not_a_proxy h
         | Some t \<Rightarrow>
             (case patches t of
                None \<Rightarrow> Ok h (Walked False False)
              | Some p \<Rightarrow>
                  rbind (patched_loop h p copyI (own_keys p)) (\<lambda>h1 b. Ok h1 (Walked False b))))
      else if \<not> isProxy h s then Ok h (Walked True False)
      else
        rbind (js_get h copyI (key_at keys i)) (\<lambda>h1 c.
          if \<not> isProxyable h1 c then Ok h1 Abort
          else walk_down h1 proxy keys (Suc i) ss c))"

text \<open>
  The second loop of the visitor. The state is \<open>copy\<close>, \<open>baseI\<close>, \<open>copyI\<close> and
  \<open>parentCopy\<close>.
\<close>

record rewire =
  r_copy :: val
  r_baseI :: val
  r_copyI :: val
  r_parentCopy :: val

definition attach :: "heap \<Rightarrow> pkey list \<Rightarrow> nat \<Rightarrow> rewire \<Rightarrow> val \<Rightarrow> rewire res" where
  "attach h keys i r c =
     (if i = 0 then Ok h (r\<lparr>r_copy := c, r_copyI := c\<rparr>)
      else rbind (js_set h (r_parentCopy r) (key_at keys (i - 1)) c) (\<lambda>h1 u.
             Ok h1 (r\<lparr>r_copyI := c\<rparr>)))"

definition nullish :: "val \<Rightarrow> bool" where
  "nullish v = (v = Undefined \<or> v = Null)"

fun rewire_loop :: "heap \<Rightarrow> pkey list \<Rightarrow> bool \<Rightarrow> nat \<Rightarrow> val list \<Rightarrow> rewire \<Rightarrow> rewire res" where
  "rewire_loop h keys proxyPatched i [] r = Ok h r"
| "rewire_loop h keys proxyPatched i (s # ss) r =
     rbind
       (if \<not> isProxy h s then attach h keys i r s
        else if r_copyI r = r_baseI r \<or> r_copyI r = toSource h s then
          rbind (if proxyPatched then shallowClone h (r_baseI r) else Ok h (r_copyI r)) (\<lambda>h1 c.
            attach h1 keys i r c)
        else Ok h r)
       (\<lambda>h1 r1.
          if ss \<noteq> [] then
            rbind (js_get h1 (r_copyI r1) (key_at keys i)) (\<lambda>h2 c.
              rbind (if nullish (r_baseI r1) then Ok h2 Undefined
                     else js_get h2 (r_baseI r1) (key_at keys i)) (\<lambda>h3 b.
                rewire_loop h3 keys proxyPatched (Suc i) ss
                  (r1\<lparr>r_parentCopy := r_copyI r1, r_copyI := c, r_baseI := b\<rparr>)))
          else rewire_loop h1 keys proxyPatched (Suc i) ss r1)"

text \<open>The last loop of the visitor: the patches of the proxy are written into \<open>copyI\<close>.\<close>

fun apply_patches :: "heap \<Rightarrow> addr \<Rightarrow> val \<Rightarrow> pkey list \<Rightarrow> unit res" where
  "apply_patches h proxy copyI [] = Ok h ()"
| "apply_patches h proxy copyI (key # ks) =
     (case target_at h proxy of
        None \<Rightarrow> not_a_proxy h
      | Some t \<Rightarrow>
          (let patch = (case patches t of Some p \<Rightarrow> obj_get p key | None \<Rightarrow> Undefined)
           in rbind
                (if isProxy h patch then js_set h copyI key (toSource h patch)
                 else if patch = Deleted then js_delete h copyI key
                 else js_set h copyI key patch)
                (\<lambda>h1 u. apply_patches h1 proxy copyI ks)))"

text \<open>
  The visitor of \<open>captureSnapshot\<close>. Its state is the variable \<open>copy\<close>; \<open>snap\<close> is
  the recursive call \<open>captureSnapshot(proxy)\<close>.
\<close>

definition snapshot_visitor ::
  "(heap \<Rightarrow> val \<Rightarrow> val \<Rightarrow> val res) \<Rightarrow> val \<Rightarrow> bool \<Rightarrow> val visitor" where
  "snapshot_visitor snap base rebasing h copy proxy stack keys =
     rbind (walk_down h proxy keys 0 stack copy) (\<lambda>h1 w.
       case w of
         Abort \<Rightarrow> Ok h1 (False, copy)
       | Walked stackPatched proxyPatched \<Rightarrow>
           rbind (rewire_loop h1 keys proxyPatched 0 stack
                    \<lparr>r_copy = copy, r_baseI = base, r_copyI = copy, r_parentCopy = copy\<rparr>) (\<lambda>h2 r.
             case target_at h2 proxy of
               None \<Rightarrow> not_a_proxy h2
             | Some t \<Rightarrow>
                 if stackPatched \<or> (rebasing \<and> source_is_array h2 t) then
                   rbind (snap h2 (Ref proxy) Undefined) (\<lambda>h3 s.
                     rbind (js_set h3 (r_parentCopy r)
                              (if length stack < 2 then Name ''undefined''
                               else key_at keys (length stack - 2)) s) (\<lambda>h4 u.
                       Ok h4 (False, r_copy r)))
                 else if proxyPatched \<and> patches t \<noteq> None then
                   rbind (apply_patches h2 proxy (r_copyI r) (own_keys (the (patches t)))) (\<lambda>h3 u.
                     Ok h3 (True, r_copy r))
                 else Ok h2 (True, r_copy r)))"

text \<open>
  \<open>captureSnapshot(value, rebaseOnto)\<close>; an absent \<open>rebaseOnto\<close> is \<open>Undefined\<close>.
  The fuel bounds the rounds of the traversal and the depth of the recursion through the
  visitor.
\<close>

primrec captureSnapshot :: "nat \<Rightarrow> heap \<Rightarrow> val \<Rightarrow> val \<Rightarrow> val res" where
  "captureSnapshot 0 h v rebaseOnto = OutOfFuel"
| "captureSnapshot (Suc n) h v rebaseOnto =
     (let source = toSource h v;
          base = (if nullish rebaseOnto then source else rebaseOnto);
          rebasing = (base \<noteq> source)
      in traverseProxyable0 n h v (snapshot_visitor (captureSnapshot n) base rebasing) False base)"


section \<open>The store\<close>

text \<open>
  A mutator (the \<open>patch\<close> callback of \<open>apply\<close>) is user code. The model takes a
  synchronous mutator to be a list of steps and a result. A step reads, writes or deletes a
  property of the object reached from the proxy by a path of keys, or calls \<open>apply\<close> with
  another mutator. The result is the proxy itself or a value. A mutator that returns a
  \<open>Promise\<close> is outside the model.
\<close>

datatype rhs = Const val | At "pkey list"

datatype uop = URead "pkey list" | UWrite "pkey list" pkey rhs | UDelete "pkey list" pkey

datatype ret = RetProxy | RetVal val

datatype step = UOp uop | Nested "step list" ret

type_synonym mutator = "step list \<times> ret"

fun follow :: "heap \<Rightarrow> val \<Rightarrow> pkey list \<Rightarrow> val res" where
  "follow h v [] = Ok h v"
| "follow h v (k # ks) = rbind (js_get h v k) (\<lambda>h1 x. follow h1 x ks)"

definition user_op :: "heap \<Rightarrow> addr \<Rightarrow> uop \<Rightarrow> unit res" where
  "user_op h proxy u =
     (case u of
        URead path \<Rightarrow> rbind (follow h (Ref proxy) path) (\<lambda>h1 x. Ok h1 ())
      | UWrite path k r \<Rightarrow>
          rbind (follow h (Ref proxy) path) (\<lambda>h1 x.
            rbind (case r of Const v \<Rightarrow> Ok h1 v | At p \<Rightarrow> follow h1 (Ref proxy) p) (\<lambda>h2 v.
              js_set h2 x k v))
      | UDelete path k \<Rightarrow>
          rbind (follow h (Ref proxy) path) (\<lambda>h1 x. js_delete h1 x k))"

text \<open>
  The variables of \<open>createStore\<close>. A listener is known by a number; \<open>events\<close> is not a
  variable of the source: it records, for the statements, each assignment of \<open>currState\<close> in
  \<open>resolve\<close> and each call of a listener with the \<open>stackDepth\<close> at that moment.
\<close>

datatype event = Committed val | Called nat nat

record store =
  stackDepth :: nat
  currState :: val
  prevState :: val
  listenersPending :: bool
  listeners :: "nat list"
  options :: bool
  events :: "event list"

definition createStore :: "val \<Rightarrow> bool \<Rightarrow> store" where
  "createStore initialState opts =
     \<lparr>stackDepth = 0, currState = initialState, prevState = initialState,
      listenersPending = False, listeners = [], options = opts, events = []\<rparr>"

definition getState :: "store \<Rightarrow> val" where
  "getState st = currState st"

definition subscribe :: "store \<Rightarrow> nat \<Rightarrow> store" where
  "subscribe st l = (if l \<in> set (listeners st) then st else st\<lparr>listeners := listeners st @ [l]\<rparr>)"

text \<open>\<open>for (const listener of listeners) listener()\<close>\<close>

definition call_listeners :: "store \<Rightarrow> store" where
  "call_listeners st =
     st\<lparr>events := events st @ map (\<lambda>l. Called l (stackDepth st)) (listeners st)\<rparr>"

text \<open>
  \<open>resolve(result)\<close>, followed by the last \<open>if\<close> of \<open>apply\<close>. The store is returned
  also when something throws.
\<close>

definition resolve :: "nat \<Rightarrow> store \<Rightarrow> heap \<Rightarrow> addr \<Rightarrow> ret \<Rightarrow> store \<times> val res" where
  "resolve fuel st h proxy result =
     (case captureSnapshot fuel h (Ref proxy) (getState st) of
        Throw h1 e \<Rightarrow> (st, Throw h1 e)
      | OutOfFuel \<Rightarrow> (st, OutOfFuel)
      | Ok h1 snap \<Rightarrow>
          (let st1 = st\<lparr>currState := snap, events := events st @ [Committed snap]\<rparr>;
               st2 = (if prevState st1 \<noteq> currState st1 then
                        (if stackDepth st1 \<noteq> 0 then st1\<lparr>listenersPending := True\<rparr>
                         else call_listeners
                                (st1\<lparr>prevState := currState st1, listenersPending := False\<rparr>))
                      else st1);
               r = (case result of
                      RetProxy \<Rightarrow> Ok h1 (currState st2)
                    | RetVal v \<Rightarrow>
                        if isProxyable h1 v then captureSnapshot fuel h1 v Undefined else Ok h1 v)
           in case r of
                Ok h2 x \<Rightarrow>
                  (if stackDepth st2 = 0 \<and> listenersPending st2
                   then call_listeners (st2\<lparr>listenersPending := False\<rparr>) else st2,
                   Ok h2 x)
              | _ \<Rightarrow> (st2, r)))"

text \<open>
  \<open>apply(patch)\<close>, with the steps of the mutator run between \<open>stackDepth++\<close> and the
  \<open>stackDepth--\<close> of \<open>finally\<close>.
\<close>

fun apply_patch :: "nat \<Rightarrow> store \<Rightarrow> heap \<Rightarrow> step list \<Rightarrow> ret \<Rightarrow> store \<times> val res"
  and run_steps :: "nat \<Rightarrow> store \<Rightarrow> heap \<Rightarrow> addr \<Rightarrow> step list \<Rightarrow> store \<times> unit res" where
  "apply_patch fuel st h steps result =
     (case getState st of
        Ref s \<Rightarrow>
          (case createProxy h s (options st) of
             (h0, proxy) \<Rightarrow>
               (case run_steps fuel (st\<lparr>stackDepth := stackDepth st + 1\<rparr>) h0 proxy steps of
                  (st1, Ok h1 u) \<Rightarrow> resolve fuel (st1\<lparr>stackDepth := stackDepth st1 - 1\<rparr>) h1 proxy result
                | (st1, Throw h1 e) \<Rightarrow> (st1\<lparr>stackDepth := stackDepth st1 - 1\<rparr>, Throw h1 e)
                | (st1, OutOfFuel) \<Rightarrow> (st1, OutOfFuel)))
      | _ \<Rightarrow> (st, Throw h (TypeError ''Cannot create proxy with a non-object as target or handler'')))"
| "run_steps fuel st h proxy [] = (st, Ok h ())"
| "run_steps fuel st h proxy (UOp u # xs) =
     (case user_op h proxy u of
        Ok h1 x \<Rightarrow> run_steps fuel st h1 proxy xs
      | Throw h1 e \<Rightarrow> (st, Throw h1 e)
      | OutOfFuel \<Rightarrow> (st, OutOfFuel))"
| "run_steps fuel st h proxy (Nested steps result # xs) =
     (case apply_patch fuel st h steps result of
        (st1, Ok h1 x) \<Rightarrow> run_steps fuel st1 h1 proxy xs
      | (st1, Throw h1 e) \<Rightarrow> (st1, Throw h1 e)
      | (st1, OutOfFuel) \<Rightarrow> (st1, OutOfFuel))"

definition apply_store :: "nat \<Rightarrow> store \<Rightarrow> heap \<Rightarrow> mutator \<Rightarrow> store \<times> val res" where
  "apply_store fuel st h m = apply_patch fuel st h (fst m) (snd m)"

section \<open>Notions used in the statements\<close>

definition throws :: "'a res \<Rightarrow> bool" where
  "throws r = (case r of Throw h e \<Rightarrow> True | _ \<Rightarrow> False)"

text \<open>The heap an operation leaves, whether it returned or threw.\<close>

definition heap_after :: "heap \<Rightarrow> 'a res \<Rightarrow> heap" where
  "heap_after h r = (case r of Ok h' x \<Rightarrow> h' | Throw h' e \<Rightarrow> h' | OutOfFuel \<Rightarrow> h)"

definition obj :: "(pkey \<times> val) list \<Rightarrow> hobj" where
  "obj ps = Container \<lparr>ckind = ObjectKind, alength = 0, props = ps\<rparr>"

definition arr :: "val list \<Rightarrow> hobj" where
  "arr xs = Container \<lparr>ckind = ArrayKind, alength = length xs,
                       props = zip (map Idx [0..<length xs]) xs\<rparr>"

definition fresh_proxy :: "addr \<Rightarrow> addr \<Rightarrow> bool \<Rightarrow> hobj" where
  "fresh_proxy s a opt =
     Proxy \<lparr>source = s, origin = a, patches = None, proxies = None, referenceCheck = opt\<rparr>"

text \<open>\<open>createProxy({foo: 123})\<close>: the source at 0, its proxy at 1.\<close>

definition heap_marker :: heap where
  "heap_marker = [obj [(Name ''foo'', Num 123)], fresh_proxy 0 1 False]"

text \<open>The own entry of \<open>patches\<close> of the proxy at \<open>a\<close> for the key \<open>k\<close>, if there is one.\<close>

definition patch_at :: "heap \<Rightarrow> addr \<Rightarrow> pkey \<Rightarrow> val option" where
  "patch_at h a k =
     (case target_at h a of
        Some t \<Rightarrow> (case patches t of Some p \<Rightarrow> get_own p k | None \<Rightarrow> None)
      | None \<Rightarrow> None)"



text \<open>
  The operations of a user on one proxy: a read, a write and a delete of a key. An operation
  that throws leaves the heap it had reached; the user goes on from there.
\<close>

datatype op = Read pkey | Write pkey val | Remove pkey

definition do_op :: "addr \<Rightarrow> heap \<Rightarrow> op \<Rightarrow> heap" where
  "do_op a h x =
     (case x of
        Read k \<Rightarrow> heap_after h (trapGet h a k)
      | Write k v \<Rightarrow> heap_after h (trapSet h a k v)
      | Remove k \<Rightarrow> heap_after h (trapDeleteProperty h a k))"

definition run_ops :: "addr \<Rightarrow> heap \<Rightarrow> op list \<Rightarrow> heap" where
  "run_ops a h xs = foldl (do_op a) h xs"









text \<open>
  A proxy in use: its source is a container; its patch table, once made, is a sequence when
  the source is one and a prototype-less object otherwise; its table of derived proxies is a
  prototype-less object that holds proxies.
\<close>

definition facade :: "heap \<Rightarrow> addr \<Rightarrow> addr \<Rightarrow> container \<Rightarrow> bool" where
  "facade h a s c =
     (case target_at h a of
        None \<Rightarrow> False
      | Some t \<Rightarrow>
          source t = s \<and> container_at h s = Some c
          \<and> (case patches t of None \<Rightarrow> True | Some p \<Rightarrow> is_array_c p = is_array_c c)
          \<and> (case proxies t of
                None \<Rightarrow> True
              | Some px \<Rightarrow> \<not> is_array_c px \<and> (\<forall>k v. get_own px k = Some v \<longrightarrow> isProxy h v)))"

definition tomb :: "heap \<Rightarrow> addr \<Rightarrow> pkey \<Rightarrow> bool" where
  "tomb h a k = (patch_at h a k = Some Deleted)"

text \<open>
  \<open>Array.prototype.push\<close> with one argument and \<open>Array.prototype.pop\<close>, applied to a
  proxy, as ECMAScript defines them: \<open>push\<close> reads \<open>length\<close>, writes the element at that
  index and writes the new \<open>length\<close>; \<open>pop\<close> reads \<open>length\<close>, reads and deletes the
  last element and writes the new \<open>length\<close>.
\<close>

definition to_len :: "val \<Rightarrow> nat" where
  "to_len v = (case v of Num n \<Rightarrow> nat n | Bool b \<Rightarrow> (if b then 1 else 0) | _ \<Rightarrow> 0)"

definition array_push :: "heap \<Rightarrow> addr \<Rightarrow> val \<Rightarrow> val res" where
  "array_push h a x =
     rbind (trapGet h a klength) (\<lambda>h1 l.
       rbind (trapSet h1 a (Idx (to_len l)) x) (\<lambda>h2 b.
         rbind (trapSet h2 a klength (Num (int (to_len l) + 1))) (\<lambda>h3 b.
           Ok h3 (Num (int (to_len l) + 1)))))"

definition array_pop :: "heap \<Rightarrow> addr \<Rightarrow> val res" where
  "array_pop h a =
     rbind (trapGet h a klength) (\<lambda>h1 l.
       if to_len l = 0 then rbind (trapSet h1 a klength (Num 0)) (\<lambda>h2 b. Ok h2 Undefined)
       else
         rbind (trapGet h1 a (Idx (to_len l - 1))) (\<lambda>h2 e.
           rbind (trapDeleteProperty h2 a (Idx (to_len l - 1))) (\<lambda>h3 b.
             rbind (trapSet h3 a klength (Num (int (to_len l - 1)))) (\<lambda>h4 b. Ok h4 e))))"

text \<open>\<open>createProxy([1])\<close> before the proxy is made: the source at 0.\<close>

definition heap_one_array :: heap where
  "heap_one_array = [arr [Num 1]]"

text \<open>
  \<open>p = createProxy([1])\<close> after \<open>p.push(7)\<close>: the source at 0, \<open>p\<close> at 1 with the patch
  \<open>7\<close> at index 1 and the \<open>length\<close> 2.
\<close>

definition heap_pushed :: heap where
  "heap_pushed =
     [arr [Num 1],
      Proxy \<lparr>source = 0, origin = 1,
             patches = Some \<lparr>ckind = ArrayKind, alength = 2, props = [(Idx 1, Num 7)]\<rparr>,
             proxies = None, referenceCheck = False\<rparr>]"

text \<open>
  What a run of steps inside an \<open>apply\<close> (\<open>body_ok\<close>, the counter is positive) and a
  whole \<open>apply\<close> at the outermost level (\<open>top_ok\<close>, the counter is zero) do to the
  store, where \<open>cs\<close> are the states committed on the way, in order.
\<close>

definition body_ok :: "store \<Rightarrow> store \<Rightarrow> val list \<Rightarrow> bool" where
  "body_ok st st1 cs =
     (stackDepth st1 = stackDepth st \<and> listeners st1 = listeners st \<and> options st1 = options st
      \<and> events st1 = events st @ map Committed cs
      \<and> prevState st1 = prevState st
      \<and> listenersPending st1 = (listenersPending st \<or> (\<exists>s\<in>set cs. s \<noteq> prevState st))
      \<and> currState st1 = last (currState st # cs))"

definition top_ok :: "store \<Rightarrow> store \<Rightarrow> val list \<Rightarrow> bool" where
  "top_ok st st1 cs =
     (stackDepth st1 = 0 \<and> listeners st1 = listeners st \<and> options st1 = options st
      \<and> events st1 = events st @ map Committed cs
            @ (if listenersPending st \<or> (\<exists>s\<in>set cs. s \<noteq> prevState st)
               then map (\<lambda>l. Called l 0) (listeners st) else [])
      \<and> \<not> listenersPending st1
      \<and> prevState st1 = currState st1
      \<and> currState st1 = last cs \<and> cs \<noteq> [])"

text \<open>
  A store over \<open>{foo: 1, bar: 2}\<close> with the listeners 7 and 8, and the mutator
  \<open>(p, apply) => { apply(q => { q.foo = 5 }); p.bar = 6; return p }\<close>.
\<close>

definition heap_store :: heap where
  "heap_store = [obj [(Name ''foo'', Num 1), (Name ''bar'', Num 2)]]"

definition store0 :: store where
  "store0 = subscribe (subscribe (createStore (Ref 0) False) 7) 8"

definition nested_mutator :: mutator where
  "nested_mutator =
     ([Nested [UOp (UWrite [] (Name ''foo'') (Const (Num 5)))] (RetVal Undefined),
       UOp (UWrite [] (Name ''bar'') (Const (Num 6)))], RetProxy)"

text \<open>
  The mutator \<open>(p, apply) => { apply(q => { q.foo = 5 }); return p.zzz.x }\<close>: after the
  nested \<open>apply\<close> it reads a property of \<open>undefined\<close>, which throws a \<open>TypeError\<close>.
\<close>

definition throwing_mutator :: mutator where
  "throwing_mutator =
     ([Nested [UOp (UWrite [] (Name ''foo'') (Const (Num 5)))] (RetVal Undefined),
       UOp (URead [Name ''zzz'', Name ''x''])], RetProxy)"

text \<open>
  For the traversal. \<open>child_of\<close> is the value the traversal descends into from \<open>x\<close>
  under the key \<open>k\<close>: for a proxy its patch at \<open>k\<close>, or else its derived proxy at \<open>k\<close>;
  for anything else the property \<open>k\<close>.
\<close>

definition keys_of :: "frame \<Rightarrow> pkey list" where
  "keys_of f = (case fkeys f of Some ks \<Rightarrow> ks | None \<Rightarrow> [])"

definition child_of :: "heap \<Rightarrow> val \<Rightarrow> pkey \<Rightarrow> val" where
  "child_of h x k =
     (if isProxy h x then
        (case target_at h (proxy_addr x) of
           None \<Rightarrow> Undefined
         | Some t \<Rightarrow>
             if hasOwnProperty (patches t) k then obj_get (the (patches t)) k
             else (case proxies t of Some px \<Rightarrow> obj_get px k | None \<Rightarrow> Undefined))
      else plain_get h x k)"

text \<open>
  A stack of the traversal over the heap \<open>h\<close>: every frame holds the traversable keys of its
  object and an index within them; every frame but the last is an object of the heap that
  has descended, under the key before its index, into the object of the next frame; and no
  object occurs twice below the last frame.
\<close>

definition frame_ok :: "heap \<Rightarrow> frame \<Rightarrow> bool" where
  "frame_ok h f = (traversableOwnKeys h (fobj f) = Ok h (fkeys f) \<and> fidx f \<le> length (keys_of f))"

definition link_ok :: "heap \<Rightarrow> frame \<Rightarrow> frame \<Rightarrow> bool" where
  "link_ok h f g =
     ((case fobj f of Ref a \<Rightarrow> a < length h | _ \<Rightarrow> False)
      \<and> 1 \<le> fidx f
      \<and> fkey f = Some (keys_of f ! (fidx f - 1))
      \<and> fobj g = child_of h (fobj f) (keys_of f ! (fidx f - 1)))"

fun links :: "heap \<Rightarrow> frame list \<Rightarrow> bool" where
  "links h [] = True"
| "links h [f] = True"
| "links h (f # g # fs) = (link_ok h f g \<and> links h (g # fs))"

definition tinv :: "heap \<Rightarrow> frame list \<Rightarrow> bool" where
  "tinv h frames =
     (list_all (frame_ok h) frames \<and> links h frames \<and> distinct (map fobj (butlast frames)))"

text \<open>The keys the visitor is given for a stack: \<open>keyStack\<close> up to \<open>stackDepth - 1\<close>.\<close>

definition path_of :: "frame list \<Rightarrow> pkey list" where
  "path_of frames =
     map (\<lambda>f. case fkey f of Some k \<Rightarrow> k | None \<Rightarrow> Name ''undefined'') (butlast frames)"

text \<open>
  A bound of the traversal: \<open>key_bound\<close> is above the number of traversable keys of every
  object of the heap, and \<open>mu\<close> weighs the keys each frame has left, lower frames more.
\<close>

definition tkeys :: "heap \<Rightarrow> val \<Rightarrow> pkey list" where
  "tkeys h v = (case traversableOwnKeys h v of Ok h' (Some ks) \<Rightarrow> ks | _ \<Rightarrow> [])"

definition key_bound :: "heap \<Rightarrow> nat" where
  "key_bound h = Suc (Suc (fold max (map (\<lambda>a. length (tkeys h (Ref a))) [0..<length h]) 0))"

definition weight :: "heap \<Rightarrow> nat \<Rightarrow> frame \<Rightarrow> nat" where
  "weight h i f = (length (keys_of f) - fidx f + 1) * key_bound h ^ (length h + 1 - i)"

definition mu :: "heap \<Rightarrow> frame list \<Rightarrow> nat" where
  "mu h frames = (\<Sum>i<length frames. weight h i (frames ! i))"

text \<open>A visitor that does not touch the heap: it computes its result and records the call.\<close>

definition record_visits ::
  "('s \<Rightarrow> addr \<Rightarrow> val list \<Rightarrow> pkey list \<Rightarrow> bool \<times> 's)
   \<Rightarrow> ('s \<times> (addr \<times> val list \<times> pkey list) list) visitor" where
  "record_visits g h vs proxy stack keys =
     (case g (fst vs) proxy stack keys of
        (b, s') \<Rightarrow> Ok h (b, (s', snd vs @ [(proxy, stack, keys)])))"

text \<open>
  \<open>chain h stack keys\<close>: each object of the stack is what the traversal descends into from
  the one before, under the key at that position.
\<close>

fun chain :: "heap \<Rightarrow> val list \<Rightarrow> pkey list \<Rightarrow> bool" where
  "chain h (v # w # vs) (k # ks) = (w = child_of h v k \<and> chain h (w # vs) ks)"
| "chain h [v] [] = True"
| "chain h vs ks = False"

text \<open>Every object of the heap reports each own key once, as \<open>Reflect.ownKeys\<close> does.\<close>

fun keys_once :: "hobj \<Rightarrow> bool" where
  "keys_once (Container c) = distinct (own_keys c)"
| "keys_once (Proxy t) =
     ((case patches t of None \<Rightarrow> True | Some p \<Rightarrow> distinct (own_keys p))
      \<and> (case proxies t of None \<Rightarrow> True | Some p \<Rightarrow> distinct (own_keys p)))"

text \<open>
  \<open>visitable\<close>: a stack the visitor may be called for. \<open>tpush\<close>: the stack \<open>fr'\<close> is
  \<open>frames\<close> after its last object has descended under one of its remaining keys.
\<close>

definition visitable :: "heap \<Rightarrow> frame list \<Rightarrow> bool" where
  "visitable h frames =
     (tinv h frames \<and> frames \<noteq> [] \<and> isProxy h (fobj (last frames)) \<and> distinct (map fobj frames))"

definition tpush :: "heap \<Rightarrow> frame list \<Rightarrow> frame list \<Rightarrow> bool" where
  "tpush h frames fr' =
     (tinv h frames \<and> frames \<noteq> [] \<and> tinv h fr'
      \<and> (\<exists>j v tk. fidx (last frames) \<le> j \<and> j < length (keys_of (last frames))
            \<and> fr' = push_frame frames j (keys_of (last frames) ! j) v tk))"

text \<open>
  What one round of the loop gives on a stack of the heap \<open>h\<close> when the visitor leaves the
  heap alone and its state then satisfies \<open>Q\<close>: an exception, or the stack popped or pushed,
  with or without a call of the visitor before. \<open>can_throw\<close> is what an exception of the
  round needs: a key of the last frame leads to something whose keys cannot be listed, or
  the proxy of the last frame has a key outside its patches and no table of proxies.
\<close>

definition can_throw :: "heap \<Rightarrow> frame list \<Rightarrow> bool" where
  "can_throw h frames =
     ((\<exists>k\<in>set (keys_of (last frames)).
         \<exists>h' e. traversableOwnKeys h (child_of h (fobj (last frames)) k) = Throw h' e)
      \<or> (\<exists>t. target_at h (proxy_addr (fobj (last frames))) = Some t \<and> proxies t = None
            \<and> (\<exists>k\<in>set (keys_of (last frames)). \<not> hasOwnProperty (patches t) k)))"

definition round_result ::
  "('vs \<Rightarrow> bool) \<Rightarrow> bool \<Rightarrow> heap \<Rightarrow> 'vs \<Rightarrow> frame list \<Rightarrow> ('vs \<times> frame list) res \<Rightarrow> bool" where
  "round_result Q df h vs frames R =
     ((\<exists>h' e. R = Throw h' e \<and> can_throw h frames)
      \<or> R = Ok h (vs, butlast frames)
      \<or> (\<exists>vs'. Q vs' \<and> R = Ok h (vs', butlast frames))
      \<or> (\<exists>fr'. tpush h frames fr' \<and> R = Ok h (vs, fr'))
      \<or> (\<exists>vs' fr'. \<not> df \<and> Q vs' \<and> tpush h frames fr' \<and> R = Ok h (vs', fr')))"

text \<open>
  The rounds of the proxy branch after the visit of the parent-first order: the scan of the
  remaining keys and what follows it.
\<close>

definition proxy_tail ::
  "'vs visitor \<Rightarrow> bool \<Rightarrow> heap \<Rightarrow> 'vs \<Rightarrow> frame list \<Rightarrow> target \<Rightarrow> pkey list
   \<Rightarrow> ('vs \<times> frame list) res" where
  "proxy_tail visitor df h vs1 frames t ks =
     lift h (scan_proxy h t (drop (fidx (last frames)) ks) (fidx (last frames))) (\<lambda>found.
       case found of
         Some (j, key, v) \<Rightarrow>
           rbind (traversableOwnKeys h v) (\<lambda>h2 tk. Ok h2 (vs1, push_frame frames j key v tk))
       | None \<Rightarrow>
           rbind (if df then call_visitor visitor h vs1 frames else Ok h (True, vs1)) (\<lambda>h2 r2.
             Ok h2 (snd r2, butlast frames)))"

text \<open>
  \<open>kpath\<close>: the keys taken from the frames. \<open>pending df frames p\<close>: with the stack
  \<open>frames\<close>, a call of the visitor with the keys \<open>p\<close> may still come: \<open>p\<close> leads to a
  frame of the stack that is yet to be visited (in depth-first order every frame; otherwise
  the last one when none of its keys has been taken), or \<open>p\<close> passes through a key that
  some frame has not taken yet.
\<close>

definition kpath :: "frame list \<Rightarrow> pkey list" where
  "kpath fs = map (\<lambda>f. case fkey f of Some k \<Rightarrow> k | None \<Rightarrow> Name ''undefined'') fs"

definition pending :: "bool \<Rightarrow> frame list \<Rightarrow> pkey list \<Rightarrow> bool" where
  "pending df frames p =
     (\<exists>i<length frames.
        (p = kpath (take i frames) \<and> (df \<or> (Suc i = length frames \<and> fidx (frames ! i) = 0)))
        \<or> (\<exists>k rest. k \<in> set (drop (fidx (frames ! i)) (keys_of (frames ! i)))
              \<and> p = kpath (take i frames) @ k # rest))"

definition keys_distinct :: "frame list \<Rightarrow> bool" where
  "keys_distinct frames = list_all (\<lambda>f. distinct (keys_of f)) frames"

text \<open>
  What holds of a recorded call of the visitor in a traversal from \<open>root\<close>: the stack starts
  at \<open>root\<close> and ends at the proxy, no object occurs twice in it, and the keys lead from
  each object of the stack to the next.
\<close>

definition visit_ok :: "heap \<Rightarrow> val \<Rightarrow> addr \<times> val list \<times> pkey list \<Rightarrow> bool" where
  "visit_ok h root e =
     (case e of (p, stack, keys) \<Rightarrow>
        stack \<noteq> [] \<and> hd stack = root \<and> last stack = Ref p \<and> isProxy h (Ref p)
        \<and> distinct stack \<and> chain h stack keys)"

text \<open>
  The state of the recording visitor against the stack: every recorded call is as above;
  and, when the objects report each key once, no keys were recorded twice and none of the
  recorded keys is pending (but those of the stack itself right after its visit).
\<close>

definition visits_inv ::
  "heap \<Rightarrow> val \<Rightarrow> bool \<Rightarrow> bool \<Rightarrow> 's \<times> (addr \<times> val list \<times> pkey list) list \<Rightarrow> frame list \<Rightarrow> bool" where
  "visits_inv h root df visited vs fr =
     ((fr \<noteq> [] \<longrightarrow> fobj (hd fr) = root)
      \<and> list_all (visit_ok h root) (snd vs)
      \<and> (list_all keys_once h \<longrightarrow>
           distinct (map (\<lambda>e. snd (snd e)) (snd vs))
           \<and> (\<forall>e\<in>set (snd vs). (visited \<and> snd (snd e) = path_of fr)
                                  \<or> \<not> pending df fr (snd (snd e)))))"

text \<open>
  \<open>v = {a: null}; p = createProxy(v); p.a = p\<close>: the source at 0, \<open>p\<close> at 1. The
  visitor \<open>always\<close> returns nothing and has no state.
\<close>

definition heap_cycle :: heap where
  "heap_cycle = run_ops 1 [obj [(Name ''a'', Null)], fresh_proxy 0 1 False] [Write (Name ''a'') (Ref 1)]"

definition always :: "unit \<Rightarrow> addr \<Rightarrow> val list \<Rightarrow> pkey list \<Rightarrow> bool \<times> unit" where
  "always s p stack keys = (True, ())"












section \<open>Containers: what a write and a delete change\<close>





lemma map_of_filter_idx_below:
  "map_of (filter (idx_below n) ps) k =
     (case k of Idx i \<Rightarrow> if i < n then map_of ps k else None | _ \<Rightarrow> map_of ps k)"
proof (induction ps)
  case Nil
  then show ?case by (simp split: pkey.splits)
next
  case (Cons p ps)
  obtain k' v' where p: "p = (k', v')" by (cases p)
  show ?case using Cons by (cases k'; cases k) (auto simp: p)
qed



lemma klength_not_idx [simp]: "klength \<noteq> Idx i" "Idx i \<noteq> klength"
  "klength \<noteq> ProxyTarget" "ProxyTarget \<noteq> klength"
  by (simp_all add: klength_def)



lemma to_length_known: "to_length v = Some n \<Longrightarrow> length_known v \<and> v \<noteq> Deleted"
  by (cases v) (auto split: if_splits)

lemma obj_set_length_Some:
  "is_array_c c \<Longrightarrow> to_length v = Some n \<Longrightarrow>
   obj_set c klength v = Inr (c\<lparr>alength := n, props := filter (idx_below n) (props c)\<rparr>)"
  using to_length_known [of v n] by (simp add: obj_set_def)





section \<open>The heap: what an update changes\<close>

lemma length_set_target [simp]: "length (set_target h a t) = length h"
  by (simp add: set_target_def)

lemma heap_at_set_target:
  "heap_at (set_target h a t) b =
     (if b = a \<and> a < length h then Some (Proxy t) else heap_at h b)"
  by (auto simp: heap_at_def set_target_def)

lemma target_at_set_target:
  "target_at (set_target h a t) b =
     (if b = a \<and> a < length h then Some t else target_at h b)"
  by (simp add: target_at_def heap_at_set_target)

lemma container_at_set_target:
  "target_at h a \<noteq> None \<Longrightarrow> container_at (set_target h a t) b = container_at h b"
  by (cases "b = a")
     (auto simp: container_at_def target_at_def heap_at_def set_target_def
       split: option.splits hobj.splits if_splits)

lemma target_at_less: "target_at h a = Some t \<Longrightarrow> a < length h"
  by (auto simp: target_at_def heap_at_def split: if_splits)


lemma heap_at_alloc:
  "heap_at (fst (alloc h x)) b = (if b = length h then Some x else heap_at h b)"
  by (auto simp: heap_at_def alloc_def nth_append)

lemma target_container_disjoint:
  "target_at h a = Some t \<Longrightarrow> container_at h a = None"
  by (auto simp: target_at_def container_at_def split: option.splits hobj.splits)

section \<open>What the traps keep and change\<close>

lemma facadeD:
  "facade h a s c \<Longrightarrow>
   \<exists>t. target_at h a = Some t \<and> source t = s \<and> container_at h s = Some c
       \<and> (\<forall>p. patches t = Some p \<longrightarrow> is_array_c p = is_array_c c)
       \<and> (\<forall>px. proxies t = Some px \<longrightarrow>
              \<not> is_array_c px \<and> (\<forall>k v. get_own px k = Some v \<longrightarrow> isProxy h v))"
  by (auto simp: facade_def split: option.splits)

lemma facadeI:
  "target_at h a = Some t \<Longrightarrow> source t = s \<Longrightarrow> container_at h s = Some c \<Longrightarrow>
   (\<And>p. patches t = Some p \<Longrightarrow> is_array_c p = is_array_c c) \<Longrightarrow>
   (\<And>px. proxies t = Some px \<Longrightarrow>
      \<not> is_array_c px \<and> (\<forall>k v. get_own px k = Some v \<longrightarrow> isProxy h v)) \<Longrightarrow>
   facade h a s c"
  by (auto simp: facade_def split: option.splits)

lemma isProxy_set_target:
  "isProxy h v \<Longrightarrow> isProxy (set_target h a t) v"
  by (auto simp: isProxy_def target_at_set_target split: val.splits)






lemma ensurePatches_facade:
  assumes t: "target_at h a = Some t" "source t = s" "container_at h s = Some c"
    and p: "\<And>p. patches t = Some p \<Longrightarrow> is_array_c p = is_array_c c"
  shows "is_array_c (ensurePatches h t) = is_array_c c"
    and "(get_own (ensurePatches h t) k = Some Deleted) = tomb h a k"
    and "k \<noteq> klength \<or> \<not> is_array_c c \<Longrightarrow> get_own (ensurePatches h t) k = patch_at h a k"
proof -
  show "is_array_c (ensurePatches h t) = is_array_c c"
  proof (cases "patches t")
    case None
    then show ?thesis using t
      by (simp add: ensurePatches_def source_is_array_def new_array_def empty_object_def is_array_c_def)
  next
    case (Some q)
    then show ?thesis using p [OF Some] by (simp add: ensurePatches_def)
  qed
  show "(get_own (ensurePatches h t) k = Some Deleted) = tomb h a k"
  proof (cases "patches t")
    case None
    then show ?thesis using t
      by (simp add: ensurePatches_def source_is_array_def new_array_def empty_object_def
          is_array_c_def get_own_def tomb_def patch_at_def)
  next
    case (Some q)
    then show ?thesis using t by (simp add: ensurePatches_def tomb_def patch_at_def)
  qed
  show "k \<noteq> klength \<or> \<not> is_array_c c \<Longrightarrow> get_own (ensurePatches h t) k = patch_at h a k"
  proof (cases "patches t")
    case None
    assume "k \<noteq> klength \<or> \<not> is_array_c c"
    then have "get_own (ensurePatches h t) k = None"
    proof
      assume "k \<noteq> klength"
      then show ?thesis using None
        by (simp add: ensurePatches_def new_array_def empty_object_def get_own_def)
    next
      assume "\<not> is_array_c c"
      then show ?thesis using None t
        by (simp add: ensurePatches_def source_is_array_def empty_object_def get_own_def is_array_c_def)
    qed
    then show ?thesis using t None by (simp add: patch_at_def)
  next
    case (Some q)
    then show ?thesis using t by (simp add: ensurePatches_def patch_at_def)
  qed
qed


lemma facade_set_patches:
  assumes "facade h a s c" and "target_at h a = Some t" and "is_array_c p' = is_array_c c"
  shows "facade (set_target h a (t\<lparr>patches := Some p'\<rparr>)) a s c"
proof -
  from facadeD [OF assms(1)] assms(2) have t: "source t = s" "container_at h s = Some c"
    and px: "\<And>px. proxies t = Some px \<Longrightarrow>
               \<not> is_array_c px \<and> (\<forall>k v. get_own px k = Some v \<longrightarrow> isProxy h v)"
    by auto
  show ?thesis
  proof (rule facadeI [of _ _ "t\<lparr>patches := Some p'\<rparr>"])
    show "target_at (set_target h a (t\<lparr>patches := Some p'\<rparr>)) a = Some (t\<lparr>patches := Some p'\<rparr>)"
      using assms(2) by (simp add: target_at_set_target target_at_less)
    show "source (t\<lparr>patches := Some p'\<rparr>) = s" using t by simp
    show "container_at (set_target h a (t\<lparr>patches := Some p'\<rparr>)) s = Some c"
      using t assms(2) by (simp add: container_at_set_target)
    show "\<And>p. patches (t\<lparr>patches := Some p'\<rparr>) = Some p \<Longrightarrow> is_array_c p = is_array_c c"
      using assms(3) by simp
    show "\<And>px. proxies (t\<lparr>patches := Some p'\<rparr>) = Some px \<Longrightarrow>
        \<not> is_array_c px \<and> (\<forall>k v. get_own px k = Some v
           \<longrightarrow> isProxy (set_target h a (t\<lparr>patches := Some p'\<rparr>)) v)"
      using px by (auto intro: isProxy_set_target)
  qed
qed




section \<open>Forbidden operations\<close>

text \<open>
  C9, as stated: every forbidden operation raises, reading the backing marker included.
  Reading \<open>proxy[proxyTarget]\<close> does not raise: \<open>trapGet\<close> returns the backing target,
  here for the proxy of \<open>{foo: 123}\<close>.
\<close>

theorem marker_read_returns: "\<not> throws (trapGet heap_marker 1 ProxyTarget)"
  by (simp add: throws_def trapGet_def heap_marker_def target_at_def heap_at_def
      fresh_proxy_def obj_def)

text \<open>
  C9, amended: for every proxy, changing the prototype, preventing extensions, defining a
  property, and writing or deleting the backing marker raise and leave the heap as it was,
  so no patch is left behind; reading the backing marker returns the backing target and
  leaves the heap as it was.
\<close>

theorem forbidden_operations_raise:
  assumes "isProxy h (Ref a)"
  shows "throws (trapSetPrototypeOf h a v)
       \<and> heap_after h (trapSetPrototypeOf h a v) = h
       \<and> throws (trapPreventExtensions h a)
       \<and> heap_after h (trapPreventExtensions h a) = h
       \<and> throws (trapDefineProperty h a k attributes)
       \<and> heap_after h (trapDefineProperty h a k attributes) = h
       \<and> throws (trapSet h a ProxyTarget v)
       \<and> heap_after h (trapSet h a ProxyTarget v) = h
       \<and> throws (trapDeleteProperty h a ProxyTarget)
       \<and> heap_after h (trapDeleteProperty h a ProxyTarget) = h
       \<and> trapGet h a ProxyTarget = Ok h (Target a)"
  using assms
  by (auto simp: isProxy_def throws_def heap_after_def trapSetPrototypeOf_def
      trapPreventExtensions_def trapDefineProperty_def trapSet_def trapDeleteProperty_def
      trapGet_def split: option.splits)

theorem forbidden_operations_raise_witness:
  "isProxy heap_marker (Ref 1)
   \<and> throws (trapSetPrototypeOf heap_marker 1 Null)
   \<and> throws (trapPreventExtensions heap_marker 1)
   \<and> throws (trapDefineProperty heap_marker 1 (Name ''foo'') Null)
   \<and> throws (trapSet heap_marker 1 ProxyTarget Null)
   \<and> heap_after heap_marker (trapSet heap_marker 1 ProxyTarget Null) = heap_marker
   \<and> trapGet heap_marker 1 ProxyTarget = Ok heap_marker (Target 1)"
proof -
  have p: "isProxy heap_marker (Ref 1)"
    by (simp add: isProxy_def heap_marker_def target_at_def heap_at_def fresh_proxy_def obj_def)
  from forbidden_operations_raise [OF p, of Null "Name ''foo''" Null] p show ?thesis by simp
qed

section \<open>Writes that change nothing\<close>






section \<open>Writing the length of a sequence\<close>

lemma isProxy_Ref: "isProxy h v \<Longrightarrow> \<exists>c tc. v = Ref c \<and> target_at h c = Some tc"
  by (cases v) (auto simp: isProxy_def)

lemma proxies_not_num:
  assumes px: "\<forall>px. proxies t = Some px \<longrightarrow>
               \<not> is_array_c px \<and> (\<forall>k' v. get_own px k' = Some v \<longrightarrow> isProxy h v)"
  shows "proxies t \<noteq> None \<Longrightarrow> obj_get (the (proxies t)) k \<noteq> Num n"
    and "hasOwnProperty (proxies t) k \<Longrightarrow>
         \<exists>c tc. obj_get (the (proxies t)) k = Ref c \<and> target_at h c = Some tc"
proof -
  show "obj_get (the (proxies t)) k \<noteq> Num n" if "proxies t \<noteq> None"
  proof (cases "get_own (the (proxies t)) k")
    case None
    then show ?thesis by (simp add: obj_get_def)
  next
    case (Some v)
    with px that have "isProxy h v" by auto
    from isProxy_Ref [OF this] Some show ?thesis by (auto simp: obj_get_def)
  qed
  show "\<exists>c tc. obj_get (the (proxies t)) k = Ref c \<and> target_at h c = Some tc"
    if "hasOwnProperty (proxies t) k"
  proof -
    from that obtain q v where q: "proxies t = Some q" "get_own q k = Some v"
      by (auto simp: hasOwnProperty_def has_own_def split: option.splits)
    with px have "isProxy h v" by auto
    from isProxy_Ref [OF this] q show ?thesis by (auto simp: obj_get_def)
  qed
qed

lemma trapGet_length:
  assumes f: "facade h a s c" and ar: "is_array_c c"
  shows "trapGet h a klength = Ok h (Num (int (case patches (the (target_at h a)) of
                                                  None \<Rightarrow> alength c | Some p \<Rightarrow> alength p)))"
proof -
  from facadeD [OF f] obtain t where t: "target_at h a = Some t" "source t = s"
    "container_at h s = Some c" and pk: "\<And>p. patches t = Some p \<Longrightarrow> is_array_c p = is_array_c c"
    and px: "\<forall>px. proxies t = Some px \<longrightarrow>
               \<not> is_array_c px \<and> (\<forall>k' v. get_own px k' = Some v \<longrightarrow> isProxy h v)"
    by blast
  show ?thesis
  proof (cases "patches t")
    case (Some p)
    then have "is_array_c p" using pk ar by simp
    then show ?thesis using t Some
      by (simp add: trapGet_def hasOwnProperty_def has_own_def get_own_def obj_get_def Let_def)
  next
    case None
    have sd: "source_desc h t klength = Some (Num (int (alength c)))"
      using t ar by (simp add: source_desc_def get_own_def)
    have np: "\<not> isProxyable h (Num (int (alength c)))" by (simp add: isProxyable_def)
    show ?thesis
    proof (cases "hasOwnProperty (proxies t) klength")
      case False
      then show ?thesis using t None sd np
        by (simp add: trapGet_def hasOwnProperty_def Let_def)
    next
      case True
      from proxies_not_num(2) [OF px True] obtain c' tc where
        "obj_get (the (proxies t)) klength = Ref c'" "target_at h c' = Some tc" by blast
      then show ?thesis using t None sd np True
        by (simp add: trapGet_def hasOwnProperty_def Let_def cached_source_def)
    qed
  qed
qed

lemma set_target_twice [simp]: "set_target (set_target h a t1) a t2 = set_target h a t2"
  by (simp add: set_target_def)

lemma facade_target:
  assumes "facade h a s c" and "target_at h a = Some t"
  shows "source t = s" and "container_at h s = Some c"
    and "patches t = Some p \<Longrightarrow> is_array_c p = is_array_c c"
    and "\<forall>px. proxies t = Some px \<longrightarrow>
               \<not> is_array_c px \<and> (\<forall>k' v. get_own px k' = Some v \<longrightarrow> isProxy h v)"
  using facadeD [OF assms(1)] assms(2) by auto

lemma trapSet_absent_key:
  assumes f: "facade h a s c" and t: "target_at h a = Some t"
    and k: "k \<noteq> ProxyTarget" "get_own c k = None"
    and s: "obj_set (ensurePatches h t) k v = Inr p'"
  shows "trapSet h a k v = Ok (set_target h a (t\<lparr>patches := Some p'\<rparr>)) True"
proof -
  have "source_desc h t k = None"
    using facade_target(1,2) [OF f t] k by (simp add: source_desc_def)
  then show ?thesis using t k s by (simp add: trapSet_def Let_def lift_def)
qed

lemma trapSet_length_write:
  assumes f: "facade h a s c" and t: "target_at h a = Some t" and ar: "is_array_c c"
    and n: "to_length v = Some n"
    and w: "patches t \<noteq> None \<or> \<not> referenceCheck t \<or> v \<noteq> Num (int (alength c))"
  shows "trapSet h a klength v =
           Ok (set_target h a (t\<lparr>patches := Some ((ensurePatches h t)
                 \<lparr>alength := n, props := filter (idx_below n) (props (ensurePatches h t))\<rparr>)\<rparr>)) True"
proof -
  note ft = facade_target [OF f t]
  have sd: "source_desc h t klength = Some (Num (int (alength c)))"
    using ft(1,2) ar by (simp add: source_desc_def get_own_def)
  have ea: "is_array_c (ensurePatches h t)"
    using ensurePatches_facade(1) [OF t ft(1,2)] ft(3) ar by simp
  have wr: "(let p = ensurePatches h t; h1 = set_target h a (t\<lparr>patches := Some p\<rparr>)
             in lift h1 (obj_set p klength v) (\<lambda>p'. Ok (set_target h1 a (t\<lparr>patches := Some p'\<rparr>)) True))
            = Ok (set_target h a (t\<lparr>patches := Some ((ensurePatches h t)
                 \<lparr>alength := n, props := filter (idx_below n) (props (ensurePatches h t))\<rparr>)\<rparr>)) True"
    using ea n by (simp add: Let_def lift_def obj_set_length_Some)
  have nv: "obj_get (the (proxies t)) klength \<noteq> v" if "proxies t \<noteq> None"
  proof (cases "hasOwnProperty (proxies t) klength")
    case True
    from proxies_not_num(2) [OF ft(4) True] n show ?thesis by auto
  next
    case False
    then have "obj_get (the (proxies t)) klength = Undefined"
      using that by (auto simp: hasOwnProperty_def has_own_def obj_get_def)
    then show ?thesis using n by auto
  qed
  show ?thesis
  proof (cases "patches t")
    case None
    with w have "\<not> referenceCheck t \<or> v \<noteq> Num (int (alength c))" by simp
    then have "\<not> (source_desc h t klength \<noteq> None
                   \<and> ((proxies t \<noteq> None \<and> obj_get (the (proxies t)) klength = v)
                        \<or> (referenceCheck t \<and> the (source_desc h t klength) = v \<and> \<not> isProxy h v)))"
      using nv sd by auto
    then show ?thesis
      using t wr unfolding trapSet_def
      by (simp only: option.case if_False simp_thms klength_not_idx Let_def)
  next
    case (Some p)
    have pa: "is_array_c p" using ft(3) [OF Some] ar by simp
    then have ho: "has_own p klength" and nc: "\<not> configurable p klength"
      by (simp_all add: has_own_def get_own_def configurable_def)
    show ?thesis
    proof (cases "source_desc h t klength \<noteq> None
                   \<and> ((proxies t \<noteq> None \<and> obj_get (the (proxies t)) klength = v)
                        \<or> (referenceCheck t \<and> the (source_desc h t klength) = v \<and> \<not> isProxy h v))")
      case True
      then show ?thesis
        using t wr Some ho nc unfolding trapSet_def
        by (simp only: option.case if_False if_True simp_thms klength_not_idx Let_def)
    next
      case False
      then show ?thesis
        using t wr unfolding trapSet_def
        by (simp only: option.case if_False simp_thms klength_not_idx Let_def)
    qed
  qed
qed

lemma trapGet_patched:
  assumes t: "target_at h a = Some t" and k: "k \<noteq> ProxyTarget"
    and p: "patches t = Some p" "get_own p k = Some v"
  shows "trapGet h a k = Ok h (if v \<noteq> Deleted then v else Undefined)"
  using t k p by (simp add: trapGet_def hasOwnProperty_def has_own_def obj_get_def Let_def)

lemma trapDelete_patch_only:
  assumes f: "facade h a s c" and t: "target_at h a = Some t"
    and k: "k \<noteq> ProxyTarget" "get_own c k = None"
    and p: "patches t = Some p" "has_own p k"
  shows "trapDeleteProperty h a k = Ok (set_target h a (t\<lparr>patches := Some (p\<lparr>props := del_prop k (props p)\<rparr>)\<rparr>)) True"
proof -
  note ft = facade_target [OF f t]
  have sd: "source_desc h t k = None" using ft(1,2) k by (simp add: source_desc_def)
  have "\<not> (is_array_c p \<and> k = klength)"
    using ft(3) [OF p(1)] k(2) by (auto simp: get_own_def)
  then have "obj_delete p k = Inr (p\<lparr>props := del_prop k (props p)\<rparr>)"
    by (simp add: obj_delete_def)
  then show ?thesis
    using t k sd p by (simp add: trapDeleteProperty_def hasOwnProperty_def lift_def)
qed

lemma length_write_purges_part:
  assumes f: "facade h a s c" and ar: "is_array_c c" and n: "to_length v = Some n"
  shows "\<exists>h'. trapSet h a klength v = Ok h' True
           \<and> (\<forall>i. patch_at h' a (Idx i) = (if i < n then patch_at h a (Idx i) else None))"
proof -
  from facadeD [OF f] obtain t where t: "target_at h a = Some t" by blast
  note ft = facade_target [OF f t]
  show ?thesis
  proof (cases "patches t \<noteq> None \<or> \<not> referenceCheck t \<or> v \<noteq> Num (int (alength c))")
    case True
    let ?p = "ensurePatches h t"
    let ?h' = "set_target h a (t\<lparr>patches := Some (?p\<lparr>alength := n, props := filter (idx_below n) (props ?p)\<rparr>)\<rparr>)"
    have "patch_at ?h' a (Idx i) = (if i < n then patch_at h a (Idx i) else None)" for i
    proof -
      have "patch_at ?h' a (Idx i) = (if i < n then get_own ?p (Idx i) else None)"
        using t by (simp add: patch_at_def target_at_set_target target_at_less get_own_def
            is_array_c_def map_of_filter_idx_below)
      moreover have "get_own ?p (Idx i) = patch_at h a (Idx i)"
        using ensurePatches_facade(3) [OF t ft(1,2), of "Idx i"] ft(3) by simp
      ultimately show ?thesis by simp
    qed
    then show ?thesis using trapSet_length_write [OF f t ar n True] by simp
  next
    case False
    then have c: "patches t = None" "referenceCheck t" "v = Num (int (alength c))" by auto
    have sd: "source_desc h t klength = Some (Num (int (alength c)))"
      using ft(1,2) ar by (simp add: source_desc_def get_own_def)
    have "trapSet h a klength v = Ok h True"
      using t c sd by (simp add: trapSet_def Let_def isProxy_def)
    moreover have "patch_at h a k = None" for k using t c by (simp add: patch_at_def)
    ultimately show ?thesis by simp
  qed
qed

lemma push_pop_part:
  assumes f: "facade h a s c" and ar: "is_array_c c"
    and np: "patches (the (target_at h a)) = None"
    and fr: "get_own c (Idx (alength c)) = None" and sz: "alength c + 1 < 4294967296"
  shows "\<exists>h2 l h3. array_push h a x = Ok h2 l
           \<and> array_pop h2 a = Ok h3 (if x = Deleted then Undefined else x)
           \<and> patches (the (target_at h3 a)) = Some (new_array (alength c))"
proof -
  from facadeD [OF f] obtain t where t: "target_at h a = Some t" by blast
  note ft = facade_target [OF f t]
  have pn: "patches t = None" using np t by simp
  let ?n = "alength c"
  have al: "a < length h" using t by (rule target_at_less)
  \<comment> \<open>push\<close>
  have g1: "trapGet h a klength = Ok h (Num (int ?n))"
    using trapGet_length [OF f ar] t pn by simp
  have ep: "ensurePatches h t = new_array ?n"
    using pn ft(1,2) ar by (simp add: ensurePatches_def source_is_array_def source_length_def)
  let ?p1 = "\<lparr>ckind = ArrayKind, alength = Suc ?n, props = [(Idx ?n, x)]\<rparr>"
  let ?t1 = "t\<lparr>patches := Some ?p1\<rparr>"
  let ?h1 = "set_target h a ?t1"
  have os1: "obj_set (ensurePatches h t) (Idx ?n) x = Inr ?p1"
    by (simp add: ep obj_set_def new_array_def is_array_c_def put_prop_def)
  have s1: "trapSet h a (Idx ?n) x = Ok ?h1 True"
    using trapSet_absent_key [OF f t _ fr os1] by simp
  have p1a: "is_array_c ?p1 = is_array_c c" using ar by (simp add: is_array_c_def)
  have f1: "facade ?h1 a s c" using facade_set_patches [OF f t p1a] .
  have t1: "target_at ?h1 a = Some ?t1" using al by (simp add: target_at_set_target)
  have n1: "to_length (Num (int ?n + 1)) = Some (Suc ?n)" using sz by (simp add: nat_add_distrib)
  have e1: "ensurePatches ?h1 ?t1 = ?p1" by (simp add: ensurePatches_def)
  have s2: "trapSet ?h1 a klength (Num (int ?n + 1)) = Ok ?h1 True"
    using trapSet_length_write [OF f1 t1 ar n1] by (simp add: e1)
  have push: "array_push h a x = Ok ?h1 (Num (int ?n + 1))"
    by (simp add: array_push_def rbind_def g1 to_len_def s1 s2)
  \<comment> \<open>pop\<close>
  have g2: "trapGet ?h1 a klength = Ok ?h1 (Num (int (Suc ?n)))"
    using trapGet_length [OF f1 ar] t1 by simp
  have g3: "trapGet ?h1 a (Idx ?n) = Ok ?h1 (if x = Deleted then Undefined else x)"
    using trapGet_patched [OF t1, of "Idx ?n" ?p1 x] by (simp add: get_own_def is_array_c_def)
  let ?p2 = "\<lparr>ckind = ArrayKind, alength = Suc ?n, props = []\<rparr>"
  let ?t2 = "t\<lparr>patches := Some ?p2\<rparr>"
  let ?h2 = "set_target h a ?t2"
  have d1: "trapDeleteProperty ?h1 a (Idx ?n) = Ok ?h2 True"
    using trapDelete_patch_only [OF f1 t1 _ fr, of ?p1]
    by (simp add: has_own_def get_own_def is_array_c_def del_prop_def)
  have p2a: "is_array_c ?p2 = is_array_c c" using ar by (simp add: is_array_c_def)
  have f2: "facade ?h2 a s c" using facade_set_patches [OF f t p2a] .
  have t2: "target_at ?h2 a = Some ?t2" using al by (simp add: target_at_set_target)
  have n2: "to_length (Num (int ?n)) = Some ?n" using sz by simp
  have e2: "ensurePatches ?h2 ?t2 = ?p2" by (simp add: ensurePatches_def)
  let ?h3 = "set_target h a (t\<lparr>patches := Some (new_array ?n)\<rparr>)"
  have s3: "trapSet ?h2 a klength (Num (int ?n)) = Ok ?h3 True"
    using trapSet_length_write [OF f2 t2 ar n2] by (simp add: e2 new_array_def)
  have tl: "to_len (Num (int (Suc ?n))) = Suc ?n" by (simp add: to_len_def)
  have pop: "array_pop ?h1 a = Ok ?h3 (if x = Deleted then Undefined else x)"
    by (simp only: array_pop_def g2 rbind_def res.case tl nat.distinct if_False diff_Suc_1
        g3 d1 s3)
  have "patches (the (target_at ?h3 a)) = Some (new_array ?n)"
    using al by (simp add: target_at_set_target)
  then show ?thesis using push pop by blast
qed

text \<open>
  C3: for every proxy of a sequence, writing a valid \<open>length\<close> removes every patch at an
  index at or beyond it and keeps the patches below it; and on a proxy without patches, over
  a source that can grow by one, \<open>push(x)\<close> followed by \<open>pop()\<close> returns \<open>x\<close> and leaves
  a patch table with no entry but its \<open>length\<close>, which is that of the source.
\<close>

theorem length_write_purges:
  assumes f: "facade h a s c" and ar: "is_array_c c"
  shows "(to_length v = Some n \<longrightarrow>
            (\<exists>h'. trapSet h a klength v = Ok h' True
               \<and> (\<forall>i. patch_at h' a (Idx i) = (if i < n then patch_at h a (Idx i) else None))))
       \<and> (patches (the (target_at h a)) = None \<and> get_own c (Idx (alength c)) = None
            \<and> alength c + 1 < 4294967296 \<longrightarrow>
            (\<exists>h2 l h3. array_push h a x = Ok h2 l
               \<and> array_pop h2 a = Ok h3 (if x = Deleted then Undefined else x)
               \<and> patches (the (target_at h3 a)) = Some (new_array (alength c))))"
  using length_write_purges_part [OF f ar, of v n] push_pop_part [OF f ar, of x] by blast


theorem length_write_purges_witness:
  "facade heap_pushed 1 0 \<lparr>ckind = ArrayKind, alength = 1, props = [(Idx 0, Num 1)]\<rparr>
   \<and> patch_at heap_pushed 1 (Idx 1) = Some (Num 7)
   \<and> (\<exists>h'. trapSet heap_pushed 1 klength (Num 1) = Ok h' True \<and> patch_at h' 1 (Idx 1) = None)
   \<and> (\<exists>h2 l h3. array_push (heap_one_array @ [fresh_proxy 0 1 False]) 1 (Num 7) = Ok h2 l
          \<and> array_pop h2 1 = Ok h3 (Num 7)
          \<and> patches (the (target_at h3 1)) = Some (new_array 1))"
proof -
  let ?c = "\<lparr>ckind = ArrayKind, alength = 1, props = [(Idx 0, Num 1)]\<rparr>"
  let ?h = "heap_one_array @ [fresh_proxy 0 1 False]"
  have f1: "facade heap_pushed 1 0 ?c"
    by (simp add: facade_def heap_pushed_def target_at_def container_at_def heap_at_def arr_def
        is_array_c_def)
  have f2: "facade ?h 1 0 ?c"
    by (simp add: facade_def heap_one_array_def fresh_proxy_def target_at_def container_at_def
        heap_at_def arr_def)
  have ar: "is_array_c ?c" by (simp add: is_array_c_def)
  have p0: "patch_at heap_pushed 1 (Idx 1) = Some (Num 7)"
    by (simp add: patch_at_def heap_pushed_def target_at_def heap_at_def get_own_def is_array_c_def)
  have n: "to_length (Num 1) = Some 1" by simp
  have e: "patches (the (target_at ?h 1)) = None \<and> get_own ?c (Idx (alength ?c)) = None
            \<and> alength ?c + 1 < 4294967296"
    by (simp add: heap_one_array_def fresh_proxy_def target_at_def heap_at_def get_own_def
        is_array_c_def)
  from length_write_purges [OF f1 ar, of "Num 1" 1] n
  have 1: "\<exists>h'. trapSet heap_pushed 1 klength (Num 1) = Ok h' True \<and> patch_at h' 1 (Idx 1) = None"
    by fastforce
  from length_write_purges [OF f2 ar, of _ _ "Num 7"] e
  have 2: "\<exists>h2 l h3. array_push ?h 1 (Num 7) = Ok h2 l
          \<and> array_pop h2 1 = Ok h3 (Num 7)
          \<and> patches (the (target_at h3 1)) = Some (new_array 1)"
    by simp
  from f1 p0 1 2 show ?thesis by blast
qed

section \<open>Tombstones\<close>










section \<open>The store: nested applies\<close>

lemma body_ok_refl: "body_ok st st []"
  by (simp add: body_ok_def)

lemma body_ok_trans:
  "body_ok st st1 cs \<Longrightarrow> body_ok st1 st2 cs' \<Longrightarrow> body_ok st st2 (cs @ cs')"
  by (auto simp: body_ok_def)

lemma resolve_effect:
  assumes "resolve fuel st h proxy result = (st1, Ok h1 r)"
  shows "\<exists>S h'. captureSnapshot fuel h (Ref proxy) (currState st) = Ok h' S
           \<and> (if stackDepth st = 0 then top_ok st st1 [S] else body_ok st st1 [S])"
proof (cases "captureSnapshot fuel h (Ref proxy) (currState st)")
  case (Ok h' S)
  let ?st1 = "st\<lparr>currState := S, events := events st @ [Committed S]\<rparr>"
  let ?st2 = "if prevState ?st1 \<noteq> currState ?st1 then
                (if stackDepth ?st1 \<noteq> 0 then ?st1\<lparr>listenersPending := True\<rparr>
                 else call_listeners (?st1\<lparr>prevState := currState ?st1, listenersPending := False\<rparr>))
              else ?st1"
  let ?r = "case result of
              RetProxy \<Rightarrow> Ok h' (currState ?st2)
            | RetVal v \<Rightarrow> if isProxyable h' v then captureSnapshot fuel h' v Undefined else Ok h' v"
  from assms Ok obtain h2 x where r: "?r = Ok h2 x"
    and st1: "st1 = (if stackDepth ?st2 = 0 \<and> listenersPending ?st2
                     then call_listeners (?st2\<lparr>listenersPending := False\<rparr>) else ?st2)"
    by (cases ?r) (auto simp: resolve_def getState_def Let_def)
  have "if stackDepth st = 0 then top_ok st st1 [S] else body_ok st st1 [S]"
    unfolding st1 by (auto simp: top_ok_def body_ok_def call_listeners_def)
  then show ?thesis using Ok by simp
next
  case (Throw h' e)
  with assms show ?thesis by (simp add: resolve_def getState_def)
next
  case OutOfFuel
  with assms show ?thesis by (simp add: resolve_def getState_def)
qed

lemma body_then_resolve:
  assumes b: "body_ok (st\<lparr>stackDepth := stackDepth st + 1\<rparr>) st' cs"
    and r: "if stackDepth st = 0 then top_ok (st'\<lparr>stackDepth := stackDepth st' - 1\<rparr>) st1 [S]
            else body_ok (st'\<lparr>stackDepth := stackDepth st' - 1\<rparr>) st1 [S]"
  shows "if stackDepth st = 0 then top_ok st st1 (cs @ [S]) else body_ok st st1 (cs @ [S])"
  using b r by (auto simp: body_ok_def top_ok_def split: if_splits)

lemma apply_run_effect:
  "(\<forall>st1 h1 r. apply_patch fuel st h steps result = (st1, Ok h1 r) \<longrightarrow>
      (\<exists>cs. if stackDepth st = 0 then top_ok st st1 cs else body_ok st st1 cs))"
  "(\<forall>st1 h1 u. stackDepth st \<noteq> 0 \<longrightarrow> run_steps fuel st h proxy xs = (st1, Ok h1 u) \<longrightarrow>
      (\<exists>cs. body_ok st st1 cs))"
proof (induction fuel st h steps result and fuel st h proxy xs rule: apply_patch_run_steps.induct)
  case (1 fuel st h steps result)
  show ?case
  proof (intro allI impI)
    fix st1 h1 r
    assume a: "apply_patch fuel st h steps result = (st1, Ok h1 r)"
    then obtain s where s: "getState st = Ref s"
      by (cases "getState st") auto
    obtain h0 proxy where cp: "createProxy h s (options st) = (h0, proxy)"
      by (cases "createProxy h s (options st)")
    obtain st' rr where rs: "run_steps fuel (st\<lparr>stackDepth := stackDepth st + 1\<rparr>) h0 proxy steps = (st', rr)"
      by (cases "run_steps fuel (st\<lparr>stackDepth := stackDepth st + 1\<rparr>) h0 proxy steps")
    from a s cp rs obtain h' u where rr: "rr = Ok h' u"
      and rv: "resolve fuel (st'\<lparr>stackDepth := stackDepth st' - 1\<rparr>) h' proxy result = (st1, Ok h1 r)"
      by (cases rr) auto
    from "1.IH" [OF s cp [symmetric]] rs rr obtain cs where
      b: "body_ok (st\<lparr>stackDepth := stackDepth st + 1\<rparr>) st' cs"
      by auto
    then have d: "stackDepth st' - 1 = stackDepth st" by (simp add: body_ok_def)
    have e: "stackDepth (st'\<lparr>stackDepth := stackDepth st' - 1\<rparr>) = stackDepth st"
      using d by simp
    from resolve_effect [OF rv] obtain S where
      rS: "if stackDepth (st'\<lparr>stackDepth := stackDepth st' - 1\<rparr>) = 0
       then top_ok (st'\<lparr>stackDepth := stackDepth st' - 1\<rparr>) st1 [S]
       else body_ok (st'\<lparr>stackDepth := stackDepth st' - 1\<rparr>) st1 [S]"
      by blast
    have "if stackDepth st = 0 then top_ok (st'\<lparr>stackDepth := stackDepth st' - 1\<rparr>) st1 [S]
            else body_ok (st'\<lparr>stackDepth := stackDepth st' - 1\<rparr>) st1 [S]"
      using rS unfolding e .
    from body_then_resolve [OF b this]
    show "\<exists>cs. if stackDepth st = 0 then top_ok st st1 cs else body_ok st st1 cs"
      by blast
  qed
next
  case (2 fuel st h proxy)
  show ?case using body_ok_refl by auto
next
  case (3 fuel st h proxy u xs)
  show ?case
  proof (intro allI impI)
    fix st1 h1 r
    assume d: "stackDepth st \<noteq> 0"
      and a: "run_steps fuel st h proxy (UOp u # xs) = (st1, Ok h1 r)"
    then obtain h' x where u: "user_op h proxy u = Ok h' x"
      and rs: "run_steps fuel st h' proxy xs = (st1, Ok h1 r)"
      by (cases "user_op h proxy u") auto
    from "3.IH" [OF u] d rs show "\<exists>cs. body_ok st st1 cs" by blast
  qed
next
  case (4 fuel st h proxy steps result xs)
  show ?case
  proof (intro allI impI)
    fix st1 h1 r
    assume d: "stackDepth st \<noteq> 0"
      and a: "run_steps fuel st h proxy (Nested steps result # xs) = (st1, Ok h1 r)"
    obtain st' rr where ap: "apply_patch fuel st h steps result = (st', rr)"
      by (cases "apply_patch fuel st h steps result")
    from a ap obtain h' x where rr: "rr = Ok h' x"
      and rs: "run_steps fuel st' h' proxy xs = (st1, Ok h1 r)"
      by (cases rr) (auto simp del: apply_patch.simps)
    from "4.IH"(1) ap rr d obtain cs1 where b1: "body_ok st st' cs1" by auto
    then have d': "stackDepth st' \<noteq> 0" using d by (simp add: body_ok_def)
    from "4.IH"(2) [OF ap [symmetric] rr] d' rs obtain cs2 where b2: "body_ok st' st1 cs2"
      by blast
    from body_ok_trans [OF b1 b2] show "\<exists>cs. body_ok st st1 cs" by blast
  qed
qed


text \<open>
  An \<open>apply\<close> that returns, with a synchronous mutator: the snapshot that becomes the
  state is \<open>captureSnapshot\<close> of the proxy onto the state the store has after the steps of
  the mutator, nested applies included; and when the \<open>apply\<close> starts at rest (counter
  zero, nothing pending, \<open>prevState\<close> the current state), the events of the run are the
  commits of the nested applies and of this one, followed, when some commit differs from the
  state at entry, by one call of every listener, made with the counter at zero, and by
  nothing otherwise; the store is at rest again afterwards.
\<close>

lemma returning_apply_coalesces:
  assumes run: "apply_store fuel st h m = (st1, Ok h1 r)"
  shows "(\<exists>s h0 proxy st' h' u h''. getState st = Ref s
            \<and> createProxy h s (options st) = (h0, proxy)
            \<and> run_steps fuel (st\<lparr>stackDepth := stackDepth st + 1\<rparr>) h0 proxy (fst m) = (st', Ok h' u)
            \<and> captureSnapshot fuel h' (Ref proxy) (getState st') = Ok h'' (currState st1))
       \<and> (stackDepth st = 0 \<and> \<not> listenersPending st \<and> prevState st = currState st \<longrightarrow>
            (\<exists>cs. cs \<noteq> []
               \<and> events st1 = events st @ map Committed cs
                     @ (if \<exists>s\<in>set cs. s \<noteq> currState st
                        then map (\<lambda>l. Called l 0) (listeners st) else [])
               \<and> stackDepth st1 = 0 \<and> \<not> listenersPending st1
               \<and> prevState st1 = currState st1 \<and> currState st1 = last cs))"
proof
  from run have a: "apply_patch fuel st h (fst m) (snd m) = (st1, Ok h1 r)"
    by (simp add: apply_store_def)
  then obtain s where s: "getState st = Ref s"
    by (cases "getState st") auto
  obtain h0 proxy where cp: "createProxy h s (options st) = (h0, proxy)"
    by (cases "createProxy h s (options st)")
  obtain st' rr where rs: "run_steps fuel (st\<lparr>stackDepth := stackDepth st + 1\<rparr>) h0 proxy (fst m) = (st', rr)"
    by (cases "run_steps fuel (st\<lparr>stackDepth := stackDepth st + 1\<rparr>) h0 proxy (fst m)")
  from a s cp rs obtain h' u where rr: "rr = Ok h' u"
    and rv: "resolve fuel (st'\<lparr>stackDepth := stackDepth st' - 1\<rparr>) h' proxy (snd m) = (st1, Ok h1 r)"
    by (cases rr) auto
  from resolve_effect [OF rv] obtain S h'' where
    c: "captureSnapshot fuel h' (Ref proxy) (currState (st'\<lparr>stackDepth := stackDepth st' - 1\<rparr>)) = Ok h'' S"
    and k: "if stackDepth (st'\<lparr>stackDepth := stackDepth st' - 1\<rparr>) = 0
            then top_ok (st'\<lparr>stackDepth := stackDepth st' - 1\<rparr>) st1 [S]
            else body_ok (st'\<lparr>stackDepth := stackDepth st' - 1\<rparr>) st1 [S]"
    by blast
  have "currState st1 = S" using k by (auto simp: top_ok_def body_ok_def split: if_splits)
  with c have "captureSnapshot fuel h' (Ref proxy) (getState st') = Ok h'' (currState st1)"
    by (simp add: getState_def)
  with s cp rs rr
  show "\<exists>s h0 proxy st' h' u h''. getState st = Ref s
            \<and> createProxy h s (options st) = (h0, proxy)
            \<and> run_steps fuel (st\<lparr>stackDepth := stackDepth st + 1\<rparr>) h0 proxy (fst m) = (st', Ok h' u)
            \<and> captureSnapshot fuel h' (Ref proxy) (getState st') = Ok h'' (currState st1)"
    by blast
next
  from run have a: "apply_patch fuel st h (fst m) (snd m) = (st1, Ok h1 r)"
    by (simp add: apply_store_def)
  show "stackDepth st = 0 \<and> \<not> listenersPending st \<and> prevState st = currState st \<longrightarrow>
            (\<exists>cs. cs \<noteq> []
               \<and> events st1 = events st @ map Committed cs
                     @ (if \<exists>s\<in>set cs. s \<noteq> currState st
                        then map (\<lambda>l. Called l 0) (listeners st) else [])
               \<and> stackDepth st1 = 0 \<and> \<not> listenersPending st1
               \<and> prevState st1 = currState st1 \<and> currState st1 = last cs)"
  proof
    assume rest: "stackDepth st = 0 \<and> \<not> listenersPending st \<and> prevState st = currState st"
    from apply_run_effect(1) [of fuel st h "fst m" "snd m"] a rest
    obtain cs where "top_ok st st1 cs" by auto
    with rest show "\<exists>cs. cs \<noteq> []
               \<and> events st1 = events st @ map Committed cs
                     @ (if \<exists>s\<in>set cs. s \<noteq> currState st
                        then map (\<lambda>l. Called l 0) (listeners st) else [])
               \<and> stackDepth st1 = 0 \<and> \<not> listenersPending st1
               \<and> prevState st1 = currState st1 \<and> currState st1 = last cs"
      by (auto simp: top_ok_def)
  qed
qed

lemma returning_apply_example:
  "stackDepth store0 = 0 \<and> \<not> listenersPending store0 \<and> prevState store0 = currState store0
   \<and> events (fst (apply_store 10 store0 heap_store nested_mutator))
       = [Committed (Ref 3), Committed (Ref 4), Called 7 0, Called 8 0]
   \<and> currState (fst (apply_store 10 store0 heap_store nested_mutator)) = Ref 4
   \<and> prevState (fst (apply_store 10 store0 heap_store nested_mutator)) = Ref 4
   \<and> \<not> listenersPending (fst (apply_store 10 store0 heap_store nested_mutator))"
proof -
  have ok: "case snd (apply_store 10 store0 heap_store nested_mutator) of Ok h x \<Rightarrow> True | _ \<Rightarrow> False"
    by code_simp
  have ev: "events (fst (apply_store 10 store0 heap_store nested_mutator))
       = [Committed (Ref 3), Committed (Ref 4), Called 7 0, Called 8 0]"
    by code_simp
  have cu: "currState (fst (apply_store 10 store0 heap_store nested_mutator)) = Ref 4"
    by code_simp
  obtain st1 rr where run: "apply_store 10 store0 heap_store nested_mutator = (st1, rr)"
    by (cases "apply_store 10 store0 heap_store nested_mutator")
  with ok obtain h1 r where rr: "rr = Ok h1 r" by (cases rr) auto
  have rest: "stackDepth store0 = 0 \<and> \<not> listenersPending store0 \<and> prevState store0 = currState store0"
    by (simp add: store0_def subscribe_def createStore_def)
  from returning_apply_coalesces [OF run [unfolded rr]] rest
  have "\<not> listenersPending st1 \<and> prevState st1 = currState st1" by blast
  with run rest ev cu show ?thesis by simp
qed

text \<open>
  C8 fails when the mutator throws after a nested \<open>apply\<close> has committed. On the store
  over \<open>{foo: 1, bar: 2}\<close> with the listeners 7 and 8, the mutator
  \<open>(p, apply) => { apply(q => { q.foo = 5 }); return p.zzz.x }\<close> throws a \<open>TypeError\<close>;
  the nested \<open>apply\<close> has committed the new state \<open>Ref 3\<close> and, the counter being
  positive, only set \<open>listenersPending\<close>; \<open>finally\<close> brings the counter back to zero,
  and the statement that calls the pending listeners is never reached. The counter is zero,
  the state has changed, \<open>listenersPending\<close> is still set and no listener was called. The
  listeners are called by the next \<open>apply\<close> that returns, here one that changes nothing.
\<close>

theorem throw_after_nested_commit_skips_listeners:
  "(case snd (apply_store 10 store0 heap_store throwing_mutator) of
      Throw h (TypeError m) \<Rightarrow> True | _ \<Rightarrow> False)
   \<and> events (fst (apply_store 10 store0 heap_store throwing_mutator)) = [Committed (Ref 3)]
   \<and> currState store0 = Ref 0
   \<and> currState (fst (apply_store 10 store0 heap_store throwing_mutator)) = Ref 3
   \<and> prevState (fst (apply_store 10 store0 heap_store throwing_mutator)) = Ref 0
   \<and> stackDepth (fst (apply_store 10 store0 heap_store throwing_mutator)) = 0
   \<and> listenersPending (fst (apply_store 10 store0 heap_store throwing_mutator))
   \<and> events (fst (apply_store 10 (fst (apply_store 10 store0 heap_store throwing_mutator))
                       (heap_after heap_store (snd (apply_store 10 store0 heap_store throwing_mutator)))
                       ([], RetProxy)))
       = [Committed (Ref 3), Committed (Ref 3), Called 7 0, Called 8 0]"
proof -
  have 1: "case snd (apply_store 10 store0 heap_store throwing_mutator) of
      Throw h (TypeError m) \<Rightarrow> True | _ \<Rightarrow> False" by code_simp
  have 2: "events (fst (apply_store 10 store0 heap_store throwing_mutator)) = [Committed (Ref 3)]"
    by code_simp
  have 3: "currState store0 = Ref 0" by code_simp
  have 4: "currState (fst (apply_store 10 store0 heap_store throwing_mutator)) = Ref 3"
    by code_simp
  have 5: "prevState (fst (apply_store 10 store0 heap_store throwing_mutator)) = Ref 0"
    by code_simp
  have 6: "stackDepth (fst (apply_store 10 store0 heap_store throwing_mutator)) = 0"
    by code_simp
  have 7: "listenersPending (fst (apply_store 10 store0 heap_store throwing_mutator))"
    by code_simp
  have 8: "events (fst (apply_store 10 (fst (apply_store 10 store0 heap_store throwing_mutator))
                       (heap_after heap_store (snd (apply_store 10 store0 heap_store throwing_mutator)))
                       ([], RetProxy)))
       = [Committed (Ref 3), Committed (Ref 3), Called 7 0, Called 8 0]"
    by code_simp
  from 1 2 3 4 5 6 7 8 show ?thesis by (intro conjI)
qed

section \<open>The traversal with a visitor that leaves the heap alone\<close>

lemma traversableOwnKeys_heap:
  "traversableOwnKeys h v = Ok h' tk \<Longrightarrow> h' = h"
  by (auto simp: traversableOwnKeys_def js_own_keys_def rbind_def trapOwnKeys_def Let_def not_a_proxy_def
      target_at_def split: option.splits val.splits hobj.splits res.splits if_splits)

lemma traversableOwnKeys_never_fuel:
  "traversableOwnKeys h v \<noteq> OutOfFuel"
  by (auto simp: traversableOwnKeys_def js_own_keys_def rbind_def trapOwnKeys_def Let_def not_a_proxy_def
      target_at_def split: option.splits val.splits hobj.splits res.splits if_splits)

lemma scan_proxy_found:
  "scan_proxy h t ks j0 = Inr (Some (j, key, v)) \<Longrightarrow>
   j0 \<le> j \<and> j < j0 + length ks \<and> key = ks ! (j - j0)
   \<and> v = (if hasOwnProperty (patches t) key then obj_get (the (patches t)) key
          else (case proxies t of Some px \<Rightarrow> obj_get px key | None \<Rightarrow> Undefined))"
proof (induction ks arbitrary: j0)
  case Nil
  then show ?case by simp
next
  case (Cons k ks)
  show ?case
  proof (cases "patches t \<noteq> None \<and> hasOwnProperty (patches t) k")
    case True
    show ?thesis
    proof (cases "isProxyable h (obj_get (the (patches t)) k)")
      case False
      with True Cons.prems have "scan_proxy h t ks (Suc j0) = Inr (Some (j, key, v))"
        by (simp add: Let_def)
      from Cons.IH [OF this] show ?thesis by (auto simp: nth_Cons')
    next
      case ip: True
      with True Cons.prems show ?thesis by (auto simp: Let_def)
    qed
  next
    case False
    then have "\<not> hasOwnProperty (patches t) k" by (auto simp: hasOwnProperty_def)
    with False Cons.prems show ?thesis by (auto split: option.splits)
  qed
qed

lemma scan_plain_found:
  "scan_plain h x ks j0 = Some (j, key, v) \<Longrightarrow>
   j0 \<le> j \<and> j < j0 + length ks \<and> key = ks ! (j - j0) \<and> v = plain_get h x key
   \<and> isProxyable h v"
proof (induction ks arbitrary: j0)
  case Nil
  then show ?case by simp
next
  case (Cons k ks)
  show ?case
  proof (cases "isProxyable h (plain_get h x k)")
    case True
    with Cons.prems show ?thesis by (auto simp: Let_def)
  next
    case False
    with Cons.prems have "scan_plain h x ks (Suc j0) = Some (j, key, v)" by (simp add: Let_def)
    from Cons.IH [OF this] show ?thesis by (auto simp: nth_Cons')
  qed
qed

lemma links_snoc:
  "links h (fs @ [f, g]) = (links h (fs @ [f]) \<and> link_ok h f g)"
proof (induction fs rule: links.induct)
  case (1 h)
  then show ?case by simp
next
  case (2 h f')
  then show ?case by auto
next
  case (3 h f' g' fs)
  then show ?case by auto
qed

lemma links_butlast: "links h fs \<Longrightarrow> links h (butlast fs)"
proof (induction fs rule: links.induct)
  case (3 h f g fs)
  then show ?case by (cases fs) auto
qed auto

lemma links_nth:
  "links h fs \<Longrightarrow> Suc i < length fs \<Longrightarrow> link_ok h (fs ! i) (fs ! Suc i)"
proof (induction fs arbitrary: i rule: links.induct)
  case (3 h f g fs)
  then show ?case by (cases i) auto
qed auto


lemma links_snoc_cong:
  "fobj f = fobj f' \<Longrightarrow> links h (fs @ [f]) = links h (fs @ [f'])"
proof (induction fs rule: links.induct)
  case (1 h)
  then show ?case by simp
next
  case (2 h g)
  then show ?case by (simp add: link_ok_def)
next
  case (3 h g g' fs)
  then show ?case by simp
qed

lemma fold_max_ge: "(m::nat) \<le> fold max xs m"
proof (induction xs arbitrary: m)
  case (Cons x xs)
  have "m \<le> max x m" by simp
  also have "\<dots> \<le> fold max xs (max x m)" by (rule Cons.IH)
  finally show ?case by simp
qed simp

lemma fold_max_mem: "(x::nat) \<in> set xs \<Longrightarrow> x \<le> fold max xs m"
proof (induction xs arbitrary: m)
  case (Cons y ys)
  show ?case
  proof (cases "x = y")
    case True
    have "x \<le> max y m" using True by simp
    also have "\<dots> \<le> fold max ys (max y m)" by (rule fold_max_ge)
    finally show ?thesis by simp
  next
    case False
    with Cons.prems have "x \<in> set ys" by simp
    from Cons.IH [OF this] show ?thesis by simp
  qed
qed simp

lemma key_bound_ge:
  assumes "a < length h"
  shows "length (tkeys h (Ref a)) + 2 \<le> key_bound h"
proof -
  have "length (tkeys h (Ref a)) \<in> set (map (\<lambda>a. length (tkeys h (Ref a))) [0..<length h])"
    using assms by auto
  from fold_max_mem [OF this, of 0] show ?thesis by (simp add: key_bound_def)
qed

lemma key_bound_pos: "2 \<le> key_bound h"
  by (simp add: key_bound_def)

lemma frame_ok_bound:
  assumes "frame_ok h f"
  shows "length (keys_of f) + 2 \<le> key_bound h"
proof (cases "\<exists>a. fobj f = Ref a \<and> a < length h")
  case True
  then obtain a where a: "fobj f = Ref a" "a < length h" by blast
  from assms a have "tkeys h (Ref a) = keys_of f"
    by (auto simp: frame_ok_def tkeys_def keys_of_def split: option.splits)
  with key_bound_ge [OF a(2)] show ?thesis by simp
next
  case False
  from assms have t: "traversableOwnKeys h (fobj f) = Ok h (fkeys f)" by (simp add: frame_ok_def)
  from False t have "fkeys f = Some []"
    by (cases "fobj f")
       (auto simp: traversableOwnKeys_def js_own_keys_def rbind_def heap_at_def target_at_def
             split: option.splits if_splits)
  then show ?thesis using key_bound_pos [of h] by (simp add: keys_of_def)
qed

lemma mu_snoc: "mu h (fs @ [f]) = mu h fs + weight h (length fs) f"
  by (simp add: mu_def nth_append)

lemma weight_pos: "0 < weight h i f"
  using key_bound_pos [of h] by (simp add: weight_def)

lemma mu_butlast:
  assumes "fs \<noteq> []"
  shows "mu h (butlast fs) < mu h fs"
proof -
  have "mu h (butlast fs @ [last fs]) = mu h (butlast fs) + weight h (length (butlast fs)) (last fs)"
    by (rule mu_snoc)
  with assms weight_pos [of h "length (butlast fs)" "last fs"] show ?thesis by simp
qed

lemma mu_push:
  assumes ne: "fs \<noteq> []"
    and j: "fidx (last fs) \<le> j" "j < length (keys_of (last fs))"
    and len: "length fs \<le> length h + 1"
    and g: "length tkl + 2 \<le> key_bound h"
    and tk: "tkl = (case tk of Some ks \<Rightarrow> ks | None \<Rightarrow> [])"
  shows "mu h (push_frame fs j key v tk) < mu h fs"
proof -
  define i where "i = length (butlast fs)"
  define B where "B = key_bound h"
  define L where "L = length (keys_of (last fs))"
  define e where "e = length h - i"
  have i: "i \<le> length h" using len ne by (simp add: i_def)
  have ex: "length h + 1 - i = Suc e" "length h + 1 - Suc i = e" using i by (simp_all add: e_def)
  have fs: "mu h fs = mu h (butlast fs) + weight h i (last fs)"
    using mu_snoc [of h "butlast fs" "last fs"] ne by (simp add: i_def)
  have "push_frame fs j key v tk
        = (butlast fs @ [(last fs)\<lparr>fidx := Suc j, fkey := Some key\<rparr>]) @ [\<lparr>fobj = v, fkeys = tk, fidx = 0, fkey = None\<rparr>]"
    by (simp add: push_frame_def)
  then have p: "mu h (push_frame fs j key v tk)
        = mu h (butlast fs) + weight h i ((last fs)\<lparr>fidx := Suc j, fkey := Some key\<rparr>)
          + weight h (Suc i) \<lparr>fobj = v, fkeys = tk, fidx = 0, fkey = None\<rparr>"
    by (simp only: mu_snoc) (simp add: i_def)
  have lj: "L - Suc j + 1 = L - j" using j by (simp add: L_def)
  have kk: "keys_of ((last fs)\<lparr>fidx := Suc j, fkey := Some key\<rparr>) = keys_of (last fs)"
    by (simp add: keys_of_def)
  have w1: "weight h i ((last fs)\<lparr>fidx := Suc j, fkey := Some key\<rparr>) = (L - j) * B ^ Suc e"
  proof -
    have fi: "fidx ((last fs)\<lparr>fidx := Suc j, fkey := Some key\<rparr>) = Suc j" by simp
    show ?thesis unfolding weight_def kk ex fi L_def [symmetric] B_def [symmetric] lj ..
  qed
  have w2: "weight h (Suc i) \<lparr>fobj = v, fkeys = tk, fidx = 0, fkey = None\<rparr> = (length tkl + 1) * B ^ e"
    unfolding weight_def ex by (simp add: keys_of_def tk B_def)
  have w0: "weight h i (last fs) = (L - fidx (last fs) + 1) * B ^ Suc e"
    unfolding weight_def ex by (simp add: L_def B_def)
  have Bpos: "0 < B ^ e" using key_bound_pos [of h] by (simp add: B_def)
  have "length tkl + 1 < B" using g by (simp add: B_def)
  then have "(length tkl + 1) * B ^ e < B * B ^ e"
    using Bpos by (rule mult_less_mono1)
  then have a: "(length tkl + 1) * B ^ e < B ^ Suc e" by simp
  have "L - j + 1 \<le> L - fidx (last fs) + 1" using j by (simp add: L_def)
  then have "(L - j + 1) * B ^ Suc e \<le> (L - fidx (last fs) + 1) * B ^ Suc e"
    by (rule mult_le_mono1)
  then have b: "(L - j) * B ^ Suc e + B ^ Suc e \<le> (L - fidx (last fs) + 1) * B ^ Suc e"
    by (simp add: algebra_simps)
  from a b show ?thesis unfolding fs p w1 w2 w0 by linarith
qed

lemma plain_get_proxyable:
  "isProxyable h (plain_get h x k) \<Longrightarrow> \<exists>a. x = Ref a \<and> a < length h"
  by (cases x)
     (auto simp: plain_get_def isProxyable_def container_at_def heap_at_def str_get_def
           split: option.splits if_splits pkey.splits)

lemma isProxy_addr:
  "isProxy h x \<Longrightarrow> \<exists>a t. x = Ref a \<and> a < length h \<and> target_at h a = Some t \<and> proxy_addr x = a"
  by (cases x) (auto simp: isProxy_def target_at_def heap_at_def proxy_addr_def split: if_splits)

lemma tinv_butlast: "tinv h fs \<Longrightarrow> tinv h (butlast fs)"
  unfolding tinv_def
  by (auto simp: list_all_iff links_butlast map_butlast distinct_butlast dest: in_set_butlastD)

lemma links_last_ref:
  "links h fs \<Longrightarrow> f \<in> set (butlast fs) \<Longrightarrow> \<exists>a. fobj f = Ref a \<and> a < length h"
proof (induction fs rule: links.induct)
  case (3 h f' g fs)
  then show ?case by (cases "fobj f'") (auto simp: link_ok_def)
qed auto

lemma links_butlast_idx:
  "links h fs \<Longrightarrow> f \<in> set (butlast fs) \<Longrightarrow> 1 \<le> fidx f"
proof (induction fs rule: links.induct)
  case (3 h f' g fs)
  then show ?case by (auto simp: link_ok_def)
qed auto

lemma tinv_length:
  assumes "tinv h fs"
  shows "length fs \<le> length h + 1"
proof -
  from assms have d: "distinct (map fobj (butlast fs))" and l: "links h fs"
    by (simp_all add: tinv_def)
  have "set (map fobj (butlast fs)) \<subseteq> Ref ` {..<length h}"
    using links_last_ref [OF l] by auto
  then have "card (set (map fobj (butlast fs))) \<le> card (Ref ` {..<length h})"
    by (intro card_mono) auto
  also have "\<dots> \<le> length h" using card_image_le [of "{..<length h}" Ref] by simp
  finally have "length (butlast fs) \<le> length h"
    using distinct_card [OF d] by simp
  then show ?thesis by simp
qed

lemma none_top_distinct:
  assumes T: "tinv h fs" and ne: "fs \<noteq> []" and n: "fkeys (last fs) = None"
  shows "fobj (last fs) \<notin> set (map fobj (butlast fs))"
proof
  assume "fobj (last fs) \<in> set (map fobj (butlast fs))"
  then obtain f where f: "f \<in> set (butlast fs)" "fobj f = fobj (last fs)" by auto
  from T have ok: "list_all (frame_ok h) fs" and l: "links h fs" by (simp_all add: tinv_def)
  from f(1) have "f \<in> set fs" by (rule in_set_butlastD)
  with ok have fo: "frame_ok h f" by (simp add: list_all_iff)
  from ok ne have lo: "frame_ok h (last fs)" by (simp add: list_all_iff)
  from fo lo f(2) n have "fkeys f = None" by (simp add: frame_ok_def)
  with fo have "fidx f = 0" by (simp add: frame_ok_def keys_of_def)
  with links_butlast_idx [OF l f(1)] show False by simp
qed

lemma tinv_push:
  assumes T: "tinv h fs" and ne: "fs \<noteq> []"
    and d: "fobj (last fs) \<notin> set (map fobj (butlast fs))"
    and a: "fobj (last fs) = Ref a" "a < length h"
    and j: "fidx (last fs) \<le> j" "j < length (keys_of (last fs))"
    and key: "key = keys_of (last fs) ! j"
    and v: "v = child_of h (fobj (last fs)) key"
    and tk: "traversableOwnKeys h v = Ok h tk"
  shows "tpush h fs (push_frame fs j key v tk)"
proof -
  let ?top = "(last fs)\<lparr>fidx := Suc j, fkey := Some key\<rparr>"
  let ?new = "\<lparr>fobj = v, fkeys = tk, fidx = 0, fkey = None\<rparr>"
  from T have ok: "list_all (frame_ok h) fs" and l: "links h fs"
    and dd: "distinct (map fobj (butlast fs))" by (simp_all add: tinv_def)
  from ok ne have lo: "frame_ok h (last fs)" by (simp add: list_all_iff)
  have ko: "keys_of ?top = keys_of (last fs)" by (simp add: keys_of_def)
  have 1: "frame_ok h ?top" using lo j by (simp add: frame_ok_def ko)
  have 2: "frame_ok h ?new" using tk by (simp add: frame_ok_def)
  have 3: "list_all (frame_ok h) (butlast fs)"
    using ok by (auto simp: list_all_iff dest: in_set_butlastD)
  have "links h (butlast fs @ [last fs])" using l ne by simp
  then have 4: "links h (butlast fs @ [?top])"
    using links_snoc_cong [of ?top "last fs" h "butlast fs"] by simp
  have 5: "link_ok h ?top ?new"
    unfolding link_ok_def ko using a key v by simp
  have 6: "links h (push_frame fs j key v tk)"
    unfolding push_frame_def using 4 5 by (simp only: links_snoc)
  have 7: "distinct (map fobj (butlast (push_frame fs j key v tk)))"
    using dd d by (simp add: push_frame_def butlast_append)
  have "tinv h (push_frame fs j key v tk)"
    unfolding tinv_def using 1 2 3 6 7 by (simp add: push_frame_def)
  with T ne j key show ?thesis unfolding tpush_def by blast
qed

lemma tpush_mu:
  assumes "tpush h fs fr'"
  shows "mu h fr' < mu h fs"
proof -
  from assms obtain j v tk where T: "tinv h fs" and ne: "fs \<noteq> []" and T': "tinv h fr'"
    and j: "fidx (last fs) \<le> j" "j < length (keys_of (last fs))"
    and fr: "fr' = push_frame fs j (keys_of (last fs) ! j) v tk"
    unfolding tpush_def by blast
  let ?new = "\<lparr>fobj = v, fkeys = tk, fidx = 0, fkey = None\<rparr>"
  from T' have "frame_ok h ?new" by (simp add: tinv_def fr push_frame_def)
  from frame_ok_bound [OF this]
  have g: "length (case tk of Some ks \<Rightarrow> ks | None \<Rightarrow> []) + 2 \<le> key_bound h"
    by (simp add: keys_of_def)
  show ?thesis unfolding fr
    by (rule mu_push [OF ne j tinv_length [OF T] g refl])
qed


lemma distinct_last:
  assumes "fs \<noteq> []" "distinct (map g (butlast fs))" "g (last fs) \<notin> set (map g (butlast fs))"
  shows "distinct (map g fs)"
proof -
  have "map g fs = map g (butlast fs @ [last fs])" using assms(1) by simp
  then have "map g fs = map g (butlast fs) @ [g (last fs)]" by simp
  then show ?thesis using assms(2,3) by simp
qed

lemma rr_throw: "can_throw h frames \<Longrightarrow> round_result Q df h vs frames (Throw h' e)"
  by (simp add: round_result_def)

lemma scan_proxy_Inl:
  "scan_proxy h t ks j = Inl e \<Longrightarrow>
   proxies t = None \<and> (\<exists>k\<in>set ks. \<not> hasOwnProperty (patches t) k)"
proof (induction ks arbitrary: j)
  case Nil
  then show ?case by simp
next
  case (Cons k ks)
  show ?case
  proof (cases "patches t \<noteq> None \<and> hasOwnProperty (patches t) k")
    case True
    with Cons.prems have "scan_proxy h t ks (Suc j) = Inl e"
      by (simp add: Let_def split: if_splits)
    from Cons.IH [OF this] show ?thesis by auto
  next
    case False
    then have "\<not> hasOwnProperty (patches t) k" by (auto simp: hasOwnProperty_def)
    with False Cons.prems show ?thesis by (auto split: option.splits)
  qed
qed

lemma can_throw_child:
  assumes "traversableOwnKeys h (child_of h (fobj (last frames)) k) = Throw h' e"
    and "k \<in> set (keys_of (last frames))"
  shows "can_throw h frames"
  using assms unfolding can_throw_def by blast

lemma rr_pop: "round_result Q df h vs frames (Ok h (vs, butlast frames))"
  by (simp add: round_result_def)

lemma rr_visit_pop: "Q vs' \<Longrightarrow> round_result Q df h vs frames (Ok h (vs', butlast frames))"
  by (auto simp add: round_result_def)

lemma rr_push: "tpush h frames fr' \<Longrightarrow> round_result Q df h vs frames (Ok h (vs, fr'))"
  by (auto simp add: round_result_def)

lemma rr_visit_push:
  "\<not> df \<Longrightarrow> Q vs' \<Longrightarrow> tpush h frames fr' \<Longrightarrow> round_result Q df h vs frames (Ok h (vs', fr'))"
  by (auto simp add: round_result_def)

lemma rbind_Ok: "rbind (Ok h x) f = f h x"
  by (simp add: rbind_def)

lemma ns_none:
  "fkeys (last frames) = None \<Longrightarrow>
   next_stack visitor df h vs frames =
     (if isProxy h (fobj (last frames)) then
        rbind (call_visitor visitor h vs frames) (\<lambda>h1 r. Ok h1 (snd r, butlast frames))
      else Ok h (vs, butlast frames))"
  by (simp add: next_stack_def Let_def)

lemma ns_cycle:
  "fkeys (last frames) = Some ks \<Longrightarrow> fobj (last frames) \<in> set (map fobj (butlast frames)) \<Longrightarrow>
   next_stack visitor df h vs frames = Ok h (vs, butlast frames)"
  by (simp add: next_stack_def Let_def)

lemma ns_plain:
  "fkeys (last frames) = Some ks \<Longrightarrow> fobj (last frames) \<notin> set (map fobj (butlast frames)) \<Longrightarrow>
   \<not> isProxy h (fobj (last frames)) \<Longrightarrow>
   next_stack visitor df h vs frames =
     (case scan_plain h (fobj (last frames)) (drop (fidx (last frames)) ks) (fidx (last frames)) of
        Some (j, key, v) \<Rightarrow>
          rbind (traversableOwnKeys h v) (\<lambda>h2 tk. Ok h2 (vs, push_frame frames j key v tk))
      | None \<Rightarrow> Ok h (vs, butlast frames))"
  by (simp add: next_stack_def Let_def)

lemma ns_proxy_later:
  "fkeys (last frames) = Some ks \<Longrightarrow> fobj (last frames) \<notin> set (map fobj (butlast frames)) \<Longrightarrow>
   isProxy h (fobj (last frames)) \<Longrightarrow> target_at h (proxy_addr (fobj (last frames))) = Some t \<Longrightarrow>
   \<not> (\<not> df \<and> fidx (last frames) = 0) \<Longrightarrow>
   next_stack visitor df h vs frames = proxy_tail visitor df h vs frames t ks"
  by (cases df)
     (simp_all add: next_stack_def Let_def rbind_Ok proxy_tail_def lift_def
        split: sum.splits option.splits)

lemma ns_proxy_first:
  "fkeys (last frames) = Some ks \<Longrightarrow> fobj (last frames) \<notin> set (map fobj (butlast frames)) \<Longrightarrow>
   isProxy h (fobj (last frames)) \<Longrightarrow> target_at h (proxy_addr (fobj (last frames))) = Some t \<Longrightarrow>
   \<not> df \<Longrightarrow> fidx (last frames) = 0 \<Longrightarrow>
   call_visitor visitor h vs frames = Ok h (b, vs') \<Longrightarrow>
   next_stack visitor df h vs frames =
     (if b then proxy_tail visitor df h vs' frames t ks else Ok h (vs', butlast frames))"
  by (simp add: next_stack_def Let_def rbind_Ok proxy_tail_def)


lemma proxy_tail_result:
  assumes T: "tinv h frames" and ne: "frames \<noteq> []"
    and fk: "fkeys (last frames) = Some ks"
    and d: "fobj (last frames) \<notin> set (map fobj (butlast frames))"
    and a: "fobj (last frames) = Ref a" "a < length h" "target_at h a = Some t"
    and ip: "isProxy h (fobj (last frames))"
    and vs1: "vs1 = vs \<or> (\<not> df \<and> Q vs1)"
    and vis: "df \<Longrightarrow> \<exists>b vs'. call_visitor visitor h vs1 frames = Ok h (b, vs') \<and> Q vs'"
  shows "round_result Q df h vs frames (proxy_tail visitor df h vs1 frames t ks)"
proof -
  define f where "f = last frames"
  from T have ok: "list_all (frame_ok h) frames" by (simp add: tinv_def)
  with ne have fo: "frame_ok h f" by (simp add: list_all_iff f_def)
  from fk have ko: "keys_of f = ks" by (simp add: keys_of_def f_def)
  show ?thesis
  proof (cases "scan_proxy h t (drop (fidx f) ks) (fidx f)")
    case (Inl e)
    then have e: "proxy_tail visitor df h vs1 frames t ks = Throw h e"
      by (simp add: proxy_tail_def lift_def f_def)
    from scan_proxy_Inl [OF Inl] obtain k where
      k: "proxies t = None" "k \<in> set (drop (fidx f) ks)" "\<not> hasOwnProperty (patches t) k"
      by blast
    from k(2) have "k \<in> set (keys_of (last frames))"
      using ko by (auto simp: f_def dest: in_set_dropD)
    with k(1,3) a have "can_throw h frames"
      unfolding can_throw_def by (auto simp: proxy_addr_def)
    then show ?thesis unfolding e by (rule rr_throw)
  next
    case (Inr found)
    show ?thesis
    proof (cases found)
      case None
      show ?thesis
      proof (cases df)
        case False
        then have e: "proxy_tail visitor df h vs1 frames t ks = Ok h (vs1, butlast frames)"
          using Inr None by (simp add: proxy_tail_def lift_def rbind_def f_def)
        from vs1 show ?thesis
        proof
          assume "vs1 = vs"
          with e show ?thesis by (simp only: rr_pop)
        next
          assume "\<not> df \<and> Q vs1"
          then have "Q vs1" ..
          then show ?thesis unfolding e by (rule rr_visit_pop)
        qed
      next
        case True
        from vis [OF True] obtain b vs' where
          c: "call_visitor visitor h vs1 frames = Ok h (b, vs')" and q: "Q vs'" by blast
        have e: "proxy_tail visitor df h vs1 frames t ks = Ok h (vs', butlast frames)"
          using Inr None True c by (simp add: proxy_tail_def lift_def rbind_def f_def)
        show ?thesis unfolding e using q by (rule rr_visit_pop)
      qed
    next
      case (Some fd)
      obtain j key v where fd: "fd = (j, key, v)" by (cases fd)
      from scan_proxy_found [OF Inr [unfolded Some fd]] fo
      have j: "fidx f \<le> j" "j < length ks" and key: "key = ks ! j"
        and v: "v = (if hasOwnProperty (patches t) key then obj_get (the (patches t)) key
               else (case proxies t of Some px \<Rightarrow> obj_get px key | None \<Rightarrow> Undefined))"
        by (auto simp: frame_ok_def ko)
      have ch: "v = child_of h (fobj (last frames)) key"
        using ip v a by (simp add: child_of_def proxy_addr_def)
      show ?thesis
      proof (cases "traversableOwnKeys h v")
        case (Ok h2 tk)
        then have tk: "traversableOwnKeys h v = Ok h tk"
          using traversableOwnKeys_heap by blast
        have e: "proxy_tail visitor df h vs1 frames t ks = Ok h (vs1, push_frame frames j key v tk)"
          using Inr Some fd tk by (simp add: proxy_tail_def lift_def rbind_def f_def)
        have p: "tpush h frames (push_frame frames j key v tk)"
          by (rule tinv_push [OF T ne d a(1,2) _ _ _ ch tk])
             (use j key ko in \<open>simp_all add: f_def\<close>)
        from vs1 show ?thesis
        proof
          assume "vs1 = vs"
          then show ?thesis unfolding e using p by (simp only: rr_push)
        next
          assume "\<not> df \<and> Q vs1"
          then have "\<not> df" "Q vs1" by simp_all
          then show ?thesis unfolding e using p by (rule rr_visit_push)
        qed
      next
        case (Throw h2 e)
        then have e: "proxy_tail visitor df h vs1 frames t ks = Throw h2 e"
          using Inr Some fd by (simp add: proxy_tail_def lift_def rbind_def f_def)
        have "key \<in> set (keys_of (last frames))" using j key ko by (simp add: f_def)
        with Throw ch have "can_throw h frames" by (simp add: can_throw_child)
        then show ?thesis unfolding e by (rule rr_throw)
      next
        case OutOfFuel
        then show ?thesis using traversableOwnKeys_never_fuel by blast
      qed
    qed
  qed
qed

lemma next_stack_step:
  assumes T: "tinv h frames" and ne: "frames \<noteq> []"
    and vis: "visitable h frames \<Longrightarrow> df \<or> fidx (last frames) = 0 \<Longrightarrow>
              \<exists>b vs'. call_visitor visitor h vs frames = Ok h (b, vs') \<and> Q vs'"
  shows "round_result Q df h vs frames (next_stack visitor df h vs frames)"
proof -
  define f where "f = last frames"
  define x where "x = fobj f"
  from T have ok: "list_all (frame_ok h) frames"
    and dd: "distinct (map fobj (butlast frames))" by (simp_all add: tinv_def)
  with ne have fo: "frame_ok h f" by (simp add: list_all_iff f_def)
  show ?thesis
  proof (cases "fkeys f")
    case None
    then have fk: "fkeys (last frames) = None" by (simp add: f_def)
    show ?thesis
    proof (cases "isProxy h x")
      case False
      then show ?thesis unfolding ns_none [OF fk] by (simp add: x_def f_def rr_pop)
    next
      case True
      have d: "fobj (last frames) \<notin> set (map fobj (butlast frames))"
        by (rule none_top_distinct [OF T ne fk])
      have "distinct (map fobj frames)" by (rule distinct_last [OF ne dd d])
      with T ne True have v: "visitable h frames" by (simp add: visitable_def f_def x_def)
      from fo None have "fidx (last frames) = 0" by (simp add: frame_ok_def keys_of_def f_def)
      then have "df \<or> fidx (last frames) = 0" ..
      from vis [OF v this] obtain b vs' where
        c: "call_visitor visitor h vs frames = Ok h (b, vs')" and q: "Q vs'" by blast
      have e: "next_stack visitor df h vs frames = Ok h (vs', butlast frames)"
        unfolding ns_none [OF fk] using True c by (simp add: x_def f_def rbind_Ok)
      show ?thesis unfolding e using q by (rule rr_visit_pop)
    qed
  next
    case (Some ks)
    then have fk: "fkeys (last frames) = Some ks" by (simp add: f_def)
    from Some have ko: "keys_of f = ks" by (simp add: keys_of_def)
    show ?thesis
    proof (cases "fobj (last frames) \<in> set (map fobj (butlast frames))")
      case True
      show ?thesis unfolding ns_cycle [OF fk True] by (rule rr_pop)
    next
      case d: False
      have dist: "distinct (map fobj frames)" by (rule distinct_last [OF ne dd d])
      show ?thesis
      proof (cases "isProxy h (fobj (last frames))")
        case False
        note e0 = ns_plain [OF fk d False, of visitor df vs]
        show ?thesis
        proof (cases "scan_plain h x (drop (fidx f) ks) (fidx f)")
          case None
          then have "next_stack visitor df h vs frames = Ok h (vs, butlast frames)"
            unfolding e0 by (simp add: x_def f_def)
          then show ?thesis by (simp only: rr_pop)
        next
          case (Some found)
          obtain j key v where fd: "found = (j, key, v)" by (cases found)
          from scan_plain_found [OF Some [unfolded fd]] fo
          have j: "fidx f \<le> j" "j < length ks" and key: "key = ks ! j"
            and v: "v = plain_get h x key" and ip: "isProxyable h v"
            by (auto simp: frame_ok_def ko)
          from plain_get_proxyable [OF ip [unfolded v]] obtain a where
            a: "x = Ref a" "a < length h" by blast
          have ch: "v = child_of h (fobj (last frames)) key"
            using False v by (simp add: child_of_def x_def f_def)
          show ?thesis
          proof (cases "traversableOwnKeys h v")
            case (Ok h2 tk)
            then have tk: "traversableOwnKeys h v = Ok h tk"
              using traversableOwnKeys_heap by blast
            have e: "next_stack visitor df h vs frames = Ok h (vs, push_frame frames j key v tk)"
              unfolding e0 using Some fd tk by (simp add: x_def f_def rbind_Ok)
            have p: "tpush h frames (push_frame frames j key v tk)"
              by (rule tinv_push [OF T ne d _ a(2) _ _ _ ch tk])
                 (use j key ko a in \<open>simp_all add: f_def x_def\<close>)
            show ?thesis unfolding e using p by (rule rr_push)
          next
            case (Throw h2 e)
            then have e: "next_stack visitor df h vs frames = Throw h2 e"
              unfolding e0 using Some fd by (simp add: x_def f_def rbind_def)
            have "key \<in> set (keys_of (last frames))" using j key ko by (simp add: f_def)
            with Throw ch have "can_throw h frames" by (simp add: can_throw_child)
            then show ?thesis unfolding e by (rule rr_throw)
          next
            case OutOfFuel
            then show ?thesis using traversableOwnKeys_never_fuel by blast
          qed
        qed
      next
        case True
        from isProxy_addr [OF True] obtain a t where
          a: "fobj (last frames) = Ref a" "a < length h" and t: "target_at h a = Some t"
          and pa: "proxy_addr (fobj (last frames)) = a"
          by blast
        from T ne True dist have visb: "visitable h frames"
          by (simp add: visitable_def)
        from t pa have t': "target_at h (proxy_addr (fobj (last frames))) = Some t" by simp
        show ?thesis
        proof (cases "\<not> df \<and> fidx (last frames) = 0")
          case False
          have v2: "df \<Longrightarrow> \<exists>b vs'. call_visitor visitor h vs frames = Ok h (b, vs') \<and> Q vs'"
            using vis [OF visb] by simp
          show ?thesis unfolding ns_proxy_later [OF fk d True t' False]
            by (rule proxy_tail_result [OF T ne fk d a t True _ v2]) simp_all
        next
          case pf: True
          then have ndf: "\<not> df" and i0: "fidx (last frames) = 0" by simp_all
          from vis [OF visb] pf obtain b vs' where
            c: "call_visitor visitor h vs frames = Ok h (b, vs')" and q: "Q vs'"
            by auto
          note e0 = ns_proxy_first [OF fk d True t' ndf i0 c]
          show ?thesis
          proof (cases b)
            case False
            then have e: "next_stack visitor df h vs frames = Ok h (vs', butlast frames)"
              unfolding e0 by simp
            show ?thesis unfolding e using q by (rule rr_visit_pop)
          next
            case b: True
            then have e: "next_stack visitor df h vs frames = proxy_tail visitor df h vs' frames t ks"
              unfolding e0 by simp
            show ?thesis unfolding e
              by (rule proxy_tail_result [OF T ne fk d a t True])
                 (use ndf q in simp_all)
          qed
        qed
      qed
    qed
  qed
qed

lemma traverse_loop_mono:
  "traverse_loop n visitor df h vs frames = R \<Longrightarrow> R \<noteq> OutOfFuel \<Longrightarrow>
   traverse_loop (n + k) visitor df h vs frames = R"
proof (induction n visitor df h vs frames arbitrary: R rule: traverse_loop.induct)
  case (1 visitor df h vs frames)
  then show ?case by simp
next
  case (2 n visitor df h vs frames)
  show ?case
  proof (cases "frames = []")
    case True
    with 2 show ?thesis by simp
  next
    case False
    show ?thesis
    proof (cases "next_stack visitor df h vs frames")
      case (Ok h1 s)
      with 2(2,3) False have "traverse_loop n visitor df h1 (fst s) (snd s) = R"
        by (simp add: rbind_def)
      from 2(1) [OF False this 2(3)] Ok False show ?thesis by (simp add: rbind_def)
    next
      case (Throw h1 e)
      with 2 False show ?thesis by (simp add: rbind_def)
    next
      case OutOfFuel
      with 2 False show ?thesis by (simp add: rbind_def)
    qed
  qed
qed

lemma traverseProxyable_mono:
  assumes "traverseProxyable n h root visitor df vs = R" "R \<noteq> OutOfFuel"
  shows "traverseProxyable (n + k) h root visitor df vs = R"
proof (cases "traversableOwnKeys h root")
  case (Ok h1 tk)
  with assms(1) have "traverse_loop n visitor df h1 vs
      [\<lparr>fobj = root, fkeys = tk, fidx = 0, fkey = None\<rparr>] = R"
    by (simp add: traverseProxyable_def traverseProxyable0_def rbind_def)
  from traverse_loop_mono [OF this assms(2), of k] Ok show ?thesis
    by (simp add: traverseProxyable_def traverseProxyable0_def rbind_def)
next
  case (Throw h1 e)
  with assms(1) show ?thesis
    by (simp add: traverseProxyable_def traverseProxyable0_def rbind_def)
next
  case OutOfFuel
  with assms(1) show ?thesis
    by (simp add: traverseProxyable_def traverseProxyable0_def rbind_def)
qed

lemma traverse_engine:
  fixes J Jv :: "'vs \<Rightarrow> frame list \<Rightarrow> bool"
  assumes vis: "\<And>vs fr. visitable h fr \<Longrightarrow> df \<or> fidx (last fr) = 0 \<Longrightarrow> J vs fr \<Longrightarrow>
                  \<exists>b vs'. call_visitor visitor h vs fr = Ok h (b, vs') \<and> Jv vs' fr"
    and pop_nv: "\<And>vs fr. tinv h fr \<Longrightarrow> fr \<noteq> [] \<Longrightarrow> J vs fr \<Longrightarrow> J vs (butlast fr)"
    and pop_v: "\<And>vs fr. tinv h fr \<Longrightarrow> fr \<noteq> [] \<Longrightarrow> Jv vs fr \<Longrightarrow> J vs (butlast fr)"
    and push_nv: "\<And>vs fr fr'. tpush h fr fr' \<Longrightarrow> J vs fr \<Longrightarrow> J vs fr'"
    and push_v: "\<And>vs fr fr'. tpush h fr fr' \<Longrightarrow> \<not> df \<Longrightarrow> Jv vs fr \<Longrightarrow> J vs fr'"
    and nt: "\<And>vs fr. safe \<Longrightarrow> tinv h fr \<Longrightarrow> fr \<noteq> [] \<Longrightarrow> J vs fr \<Longrightarrow> \<not> can_throw h fr"
  shows "tinv h frames \<Longrightarrow> J vs frames \<Longrightarrow>
         (\<not> safe \<and> (\<exists>h' e. traverse_loop (Suc (mu h frames)) visitor df h vs frames = Throw h' e))
         \<or> (\<exists>vs'. traverse_loop (Suc (mu h frames)) visitor df h vs frames = Ok h vs' \<and> J vs' [])"
proof (induction "mu h frames" arbitrary: frames vs rule: less_induct)
  case less
  show ?case
  proof (cases "frames = []")
    case True
    then have "traverse_loop (Suc (mu h frames)) visitor df h vs frames = Ok h vs" by simp
    with less.prems(2) True show ?thesis by blast
  next
    case ne: False
    have v: "visitable h frames \<Longrightarrow> df \<or> fidx (last frames) = 0 \<Longrightarrow>
             \<exists>b vs'. call_visitor visitor h vs frames = Ok h (b, vs') \<and> Jv vs' frames"
      using vis less.prems(2) by blast
    have next_ok: ?thesis
      if e: "next_stack visitor df h vs frames = Ok h (vs1, fr1)"
        and m: "mu h fr1 < mu h frames" and T1: "tinv h fr1" and J1: "J vs1 fr1" for vs1 fr1
    proof -
      define R where "R = traverse_loop (Suc (mu h fr1)) visitor df h vs1 fr1"
      from less.hyps [OF m T1 J1] have
        n: "(\<not> safe \<and> (\<exists>h' e. R = Throw h' e)) \<or> (\<exists>vs'. R = Ok h vs' \<and> J vs' [])"
        unfolding R_def by blast
      then have "R \<noteq> OutOfFuel" by auto
      from traverse_loop_mono [OF R_def [symmetric] this, of "mu h frames - Suc (mu h fr1)"] m
      have "traverse_loop (mu h frames) visitor df h vs1 fr1 = R" by simp
      then have "traverse_loop (Suc (mu h frames)) visitor df h vs frames = R"
        using ne e by (simp add: rbind_Ok)
      with n show ?thesis by simp
    qed
    from next_stack_step [where vs = vs and Q = "\<lambda>vs'. Jv vs' frames", OF less.prems(1) ne v]
    have "round_result (\<lambda>vs'. Jv vs' frames) df h vs frames (next_stack visitor df h vs frames)"
      by simp
    then consider
        (throw) h' e where "next_stack visitor df h vs frames = Throw h' e" "can_throw h frames"
      | (pop) "next_stack visitor df h vs frames = Ok h (vs, butlast frames)"
      | (vpop) vs' where "Jv vs' frames" "next_stack visitor df h vs frames = Ok h (vs', butlast frames)"
      | (push) fr' where "tpush h frames fr'" "next_stack visitor df h vs frames = Ok h (vs, fr')"
      | (vpush) vs' fr' where "\<not> df" "Jv vs' frames" "tpush h frames fr'"
          "next_stack visitor df h vs frames = Ok h (vs', fr')"
      unfolding round_result_def by blast
    then show ?thesis
    proof cases
      case throw
      from throw(2) nt [OF _ less.prems(1) ne less.prems(2)] have "\<not> safe" by blast
      moreover have "traverse_loop (Suc (mu h frames)) visitor df h vs frames = Throw h' e"
        using ne throw(1) by (simp add: rbind_def)
      ultimately show ?thesis by blast
    next
      case pop
      show ?thesis
        by (rule next_ok [OF pop mu_butlast [OF ne] tinv_butlast [OF less.prems(1)]
              pop_nv [OF less.prems(1) ne less.prems(2)]])
    next
      case vpop
      show ?thesis
        by (rule next_ok [OF vpop(2) mu_butlast [OF ne] tinv_butlast [OF less.prems(1)]
              pop_v [OF less.prems(1) ne vpop(1)]])
    next
      case push
      from push(1) have T': "tinv h fr'" by (simp add: tpush_def)
      show ?thesis
        by (rule next_ok [OF push(2) tpush_mu [OF push(1)] T' push_nv [OF push(1) less.prems(2)]])
    next
      case vpush
      from vpush(3) have T': "tinv h fr'" by (simp add: tpush_def)
      show ?thesis
        by (rule next_ok [OF vpush(4) tpush_mu [OF vpush(3)] T' push_v [OF vpush(3) vpush(1) vpush(2)]])
    qed
  qed
qed

lemma path_of_kpath: "path_of frames = kpath (butlast frames)"
  by (simp add: path_of_def kpath_def)

lemma length_kpath [simp]: "length (kpath fs) = length fs"
  by (simp add: kpath_def)

lemma kpath_append: "kpath (fs @ gs) = kpath fs @ kpath gs"
  by (simp add: kpath_def)

lemma kpath_nth: "i < length fs \<Longrightarrow> kpath fs ! i = (case fkey (fs ! i) of Some k \<Rightarrow> k | None \<Rightarrow> Name ''undefined'')"
  by (simp add: kpath_def)

lemma distinct_nth_drop:
  assumes "distinct ks" "m < n" "m < length ks"
  shows "ks ! m \<notin> set (drop n ks)"
proof
  assume "ks ! m \<in> set (drop n ks)"
  then obtain q where q: "q < length (drop n ks)" "drop n ks ! q = ks ! m"
    by (auto simp: in_set_conv_nth)
  then have "ks ! (n + q) = ks ! m" "n + q < length ks" by simp_all
  with assms(1,3) have "n + q = m" by (simp add: nth_eq_iff_index_eq)
  with assms(2) show False by simp
qed

lemma key_not_left:
  assumes T: "tinv h frames" and i: "Suc i < length frames"
    and d: "distinct (keys_of (frames ! i))"
  shows "kpath frames ! i \<notin> set (drop (fidx (frames ! i)) (keys_of (frames ! i)))"
proof -
  from T have l: "links h frames" and ok: "list_all (frame_ok h) frames" by (simp_all add: tinv_def)
  from links_nth [OF l i] have
    k: "fkey (frames ! i) = Some (keys_of (frames ! i) ! (fidx (frames ! i) - 1))"
    and p: "1 \<le> fidx (frames ! i)" by (simp_all add: link_ok_def)
  from ok i have "fidx (frames ! i) \<le> length (keys_of (frames ! i))"
    by (simp add: list_all_length frame_ok_def)
  with p have "fidx (frames ! i) - 1 < length (keys_of (frames ! i))" by simp
  from distinct_nth_drop [OF d _ this, of "fidx (frames ! i)"] p
  have "keys_of (frames ! i) ! (fidx (frames ! i) - 1)
        \<notin> set (drop (fidx (frames ! i)) (keys_of (frames ! i)))" by simp
  moreover have "kpath frames ! i = keys_of (frames ! i) ! (fidx (frames ! i) - 1)"
    using i k by (simp add: kpath_nth)
  ultimately show ?thesis by simp
qed

lemma path_not_extension:
  assumes T: "tinv h frames" and i: "Suc i < length frames"
    and d: "distinct (keys_of (frames ! i))"
    and k: "k \<in> set (drop (fidx (frames ! i)) (keys_of (frames ! i)))"
  shows "kpath (butlast frames) \<noteq> kpath (take i frames) @ k # rest"
proof
  assume e: "kpath (butlast frames) = kpath (take i frames) @ k # rest"
  have "length (kpath (take i frames)) = i" using i by simp
  then have "(kpath (take i frames) @ k # rest) ! i = k" by (simp add: nth_append)
  with e have "kpath (butlast frames) ! i = k" by simp
  moreover have "kpath (butlast frames) ! i = kpath frames ! i"
    using i by (simp add: kpath_def nth_butlast)
  ultimately have "kpath frames ! i = k" by simp
  with key_not_left [OF T i d] k show False by simp
qed

text \<open>After a pop: nothing new is pending, and the path of the popped frame is not.\<close>

lemma pending_pop:
  assumes T: "tinv h frames" and p: "pending df (butlast frames) p"
  shows "pending df frames p"
proof -
  from p obtain i where i: "i < length (butlast frames)"
    and c: "(p = kpath (take i (butlast frames))
              \<and> (df \<or> (Suc i = length (butlast frames) \<and> fidx (butlast frames ! i) = 0)))
        \<or> (\<exists>k rest. k \<in> set (drop (fidx (butlast frames ! i)) (keys_of (butlast frames ! i)))
              \<and> p = kpath (take i (butlast frames)) @ k # rest)"
    unfolding pending_def by blast
  from i have i': "Suc i < length frames" by simp
  have n: "butlast frames ! i = frames ! i" using i by (simp add: nth_butlast)
  have t: "take i (butlast frames) = take i frames" using i by (simp add: take_butlast)
  from T have l: "links h frames" by (simp add: tinv_def)
  from links_nth [OF l i'] have "1 \<le> fidx (frames ! i)" by (simp add: link_ok_def)
  with c have "(p = kpath (take i frames) \<and> df)
        \<or> (\<exists>k rest. k \<in> set (drop (fidx (frames ! i)) (keys_of (frames ! i)))
              \<and> p = kpath (take i frames) @ k # rest)"
    unfolding n t by auto
  then show ?thesis unfolding pending_def using i' by (intro exI [of _ i]) auto
qed

lemma not_pending_popped:
  assumes T: "tinv h frames" and kd: "keys_distinct (butlast frames)"
  shows "\<not> pending df (butlast frames) (path_of frames)"
proof
  assume "pending df (butlast frames) (path_of frames)"
  then obtain i where i: "i < length (butlast frames)"
    and c: "kpath (butlast frames) = kpath (take i (butlast frames))
        \<or> (\<exists>k rest. k \<in> set (drop (fidx (butlast frames ! i)) (keys_of (butlast frames ! i)))
              \<and> kpath (butlast frames) = kpath (take i (butlast frames)) @ k # rest)"
    unfolding pending_def path_of_kpath by blast
  from i have i': "Suc i < length frames" by simp
  have n: "butlast frames ! i = frames ! i" using i by (simp add: nth_butlast)
  have t: "take i (butlast frames) = take i frames" using i by (simp add: take_butlast)
  from kd i have d: "distinct (keys_of (frames ! i))"
    by (simp add: keys_distinct_def list_all_length n [symmetric])
  from c show False
  proof
    assume "kpath (butlast frames) = kpath (take i (butlast frames))"
    then have "length (kpath (butlast frames)) = length (kpath (take i (butlast frames)))" by simp
    with i show False by simp
  next
    assume "\<exists>k rest. k \<in> set (drop (fidx (butlast frames ! i)) (keys_of (butlast frames ! i)))
              \<and> kpath (butlast frames) = kpath (take i (butlast frames)) @ k # rest"
    then obtain k rest where "k \<in> set (drop (fidx (frames ! i)) (keys_of (frames ! i)))"
      "kpath (butlast frames) = kpath (take i frames) @ k # rest" unfolding n t by blast
    with path_not_extension [OF T i' d] show False by blast
  qed
qed

lemma pending_top:
  assumes "frames \<noteq> []" "df \<or> fidx (last frames) = 0"
  shows "pending df frames (path_of frames)"
proof -
  define i where "i = length frames - 1"
  have i: "i < length frames" "Suc i = length frames" using assms(1) by (simp_all add: i_def)
  have "take i frames = butlast frames" by (simp add: i_def butlast_conv_take)
  moreover have "frames ! i = last frames" using assms(1) by (simp add: i_def last_conv_nth)
  ultimately show ?thesis unfolding pending_def path_of_kpath using i assms(2)
    by (intro exI [of _ i]) auto
qed

lemma tpush_shape:
  assumes "tpush h frames fr'"
  obtains j v tk where "tinv h frames" "frames \<noteq> []" "tinv h fr'"
    "fidx (last frames) \<le> j" "j < length (keys_of (last frames))"
    "fr' = butlast frames @ [(last frames)\<lparr>fidx := Suc j, fkey := Some (keys_of (last frames) ! j)\<rparr>,
                              \<lparr>fobj = v, fkeys = tk, fidx = 0, fkey = None\<rparr>]"
  using assms unfolding tpush_def push_frame_def by blast

lemma pending_push:
  assumes tp: "tpush h frames fr'" and p: "pending df fr' p"
  shows "pending df frames p"
proof -
  from tp obtain j v tk where T: "tinv h frames" and ne: "frames \<noteq> []"
    and j: "fidx (last frames) \<le> j" "j < length (keys_of (last frames))"
    and fr: "fr' = butlast frames @ [(last frames)\<lparr>fidx := Suc j, fkey := Some (keys_of (last frames) ! j)\<rparr>,
                              \<lparr>fobj = v, fkeys = tk, fidx = 0, fkey = None\<rparr>]"
    by (rule tpush_shape)
  define n where "n = length frames - 1"
  define bl where "bl = butlast frames"
  define key where "key = keys_of (last frames) ! j"
  define top' where "top' = (last frames)\<lparr>fidx := Suc j, fkey := Some key\<rparr>"
  define new where "new = \<lparr>fobj = v, fkeys = tk, fidx = 0, fkey = None\<rparr>"
  have fr': "fr' = bl @ [top', new]" by (simp add: fr bl_def top'_def new_def key_def)
  have lbl: "length bl = n" by (simp add: bl_def n_def)
  have ln: "length frames = Suc n" using ne by (simp add: n_def)
  have lastn: "frames ! n = last frames" using ne by (simp add: n_def last_conv_nth)
  have bln: "take n frames = bl" by (simp add: bl_def n_def butlast_conv_take)
  have keyin: "key \<in> set (drop (fidx (last frames)) (keys_of (last frames)))"
  proof -
    have "drop (fidx (last frames)) (keys_of (last frames)) ! (j - fidx (last frames)) = key"
      using j by (simp add: key_def)
    moreover have "j - fidx (last frames) < length (drop (fidx (last frames)) (keys_of (last frames)))"
      using j by simp
    ultimately show ?thesis by (metis nth_mem)
  qed
  have top_ext: "pending df frames (kpath bl @ key # rest)" for rest
    unfolding pending_def using keyin
    by (intro exI [of _ n]) (auto simp: ln lastn bln)
  from p obtain i where i: "i < length fr'"
    and c: "(p = kpath (take i fr') \<and> (df \<or> (Suc i = length fr' \<and> fidx (fr' ! i) = 0)))
        \<or> (\<exists>k rest. k \<in> set (drop (fidx (fr' ! i)) (keys_of (fr' ! i)))
              \<and> p = kpath (take i fr') @ k # rest)"
    unfolding pending_def by blast
  from i have "i < n \<or> i = n \<or> i = Suc n" by (auto simp: fr' lbl)
  then show ?thesis
  proof (elim disjE)
    assume a: "i < n"
    then have e: "fr' ! i = frames ! i" "take i fr' = take i frames"
      by (simp_all add: fr' lbl nth_append bl_def nth_butlast take_butlast n_def)
    have "\<not> Suc i = length fr'" using a by (simp add: fr' lbl)
    with c have "(p = kpath (take i frames) \<and> df)
        \<or> (\<exists>k rest. k \<in> set (drop (fidx (frames ! i)) (keys_of (frames ! i)))
              \<and> p = kpath (take i frames) @ k # rest)" unfolding e by blast
    then show ?thesis unfolding pending_def using a
      by (intro exI [of _ i]) (auto simp: ln)
  next
    assume a: "i = n"
    then have e: "fr' ! i = top'" "take i fr' = bl" by (simp_all add: fr' lbl nth_append)
    have k: "keys_of top' = keys_of (last frames)" "fidx top' = Suc j"
      by (simp_all add: top'_def keys_of_def)
    have s: "set (drop (Suc j) (keys_of (last frames)))
             \<subseteq> set (drop (fidx (last frames)) (keys_of (last frames)))"
      by (rule set_drop_subset_set_drop) (use j(1) in simp)
    have "\<not> Suc i = length fr'" using a by (simp add: fr' lbl)
    with c have "(p = kpath bl \<and> df)
        \<or> (\<exists>k rest. k \<in> set (drop (fidx (last frames)) (keys_of (last frames)))
              \<and> p = kpath bl @ k # rest)" unfolding e k using s by blast
    then show ?thesis unfolding pending_def
      by (intro exI [of _ n]) (auto simp: ln lastn bln)
  next
    assume a: "i = Suc n"
    then have e: "take i fr' = bl @ [top']" by (simp add: fr' lbl)
    have kp: "kpath (bl @ [top']) = kpath bl @ [key]" by (simp add: kpath_def top'_def)
    from c have "p = kpath bl @ [key] \<or> (\<exists>k rest. p = (kpath bl @ [key]) @ k # rest)"
      unfolding e kp by blast
    then have "\<exists>rest. p = kpath bl @ key # rest" by auto
    with top_ext show ?thesis by blast
  qed
qed

lemma not_pending_pushed:
  assumes tp: "tpush h frames fr'" and kd: "keys_distinct (butlast frames)"
  shows "\<not> pending False fr' (path_of frames)"
proof
  assume p: "pending False fr' (path_of frames)"
  from tp obtain j v tk where T: "tinv h frames" and ne: "frames \<noteq> []"
    and fr: "fr' = butlast frames @ [(last frames)\<lparr>fidx := Suc j, fkey := Some (keys_of (last frames) ! j)\<rparr>,
                              \<lparr>fobj = v, fkeys = tk, fidx = 0, fkey = None\<rparr>]"
    by (rule tpush_shape)
  define n where "n = length frames - 1"
  have lbl: "length (butlast frames) = n" by (simp add: n_def)
  have lf: "length fr' = Suc (Suc n)" unfolding fr using ne by (simp add: n_def)
  have lp: "length (path_of frames) = n" by (simp add: path_of_kpath n_def)
  from p obtain i where i: "i < length fr'"
    and c: "(path_of frames = kpath (take i fr') \<and> Suc i = length fr')
        \<or> (\<exists>k rest. k \<in> set (drop (fidx (fr' ! i)) (keys_of (fr' ! i)))
              \<and> path_of frames = kpath (take i fr') @ k # rest)"
    unfolding pending_def by auto
  from c show False
  proof
    assume a: "path_of frames = kpath (take i fr') \<and> Suc i = length fr'"
    then have "length (path_of frames) = length (kpath (take i fr'))" by simp
    with a lp lf show False by simp
  next
    assume "\<exists>k rest. k \<in> set (drop (fidx (fr' ! i)) (keys_of (fr' ! i)))
              \<and> path_of frames = kpath (take i fr') @ k # rest"
    then obtain k rest where k: "k \<in> set (drop (fidx (fr' ! i)) (keys_of (fr' ! i)))"
      and e: "path_of frames = kpath (take i fr') @ k # rest" by blast
    from e have "length (path_of frames) = length (kpath (take i fr') @ k # rest)" by simp
    with lp i have a: "i < n" by simp
    then have i': "Suc i < length frames" by (simp add: n_def)
    from a have e2: "fr' ! i = frames ! i" "take i fr' = take i frames"
      by (simp_all add: fr lbl nth_append nth_butlast take_butlast n_def)
    from kd a have d: "distinct (keys_of (frames ! i))"
      by (simp add: keys_distinct_def list_all_length nth_butlast n_def)
    from path_not_extension [OF T i' d k [unfolded e2]] e show False
      unfolding e2 path_of_kpath by blast
  qed
qed

lemma merge_keys_distinct:
  "distinct ps \<Longrightarrow> distinct (merge_keys ps ks)"
  by (induction ks arbitrary: ps) auto

lemma keys_once_traversable:
  assumes K: "list_all keys_once h" and t: "traversableOwnKeys h v = Ok h' tk"
  shows "distinct (case tk of Some ks \<Rightarrow> ks | None \<Rightarrow> [])"
proof (cases "case v of Ref a \<Rightarrow> target_at h a | _ \<Rightarrow> None")
  case None
  with t have j: "js_own_keys h v = Ok h' (case tk of Some ks \<Rightarrow> ks | None \<Rightarrow> [])"
    by (auto simp: traversableOwnKeys_def rbind_def split: res.splits)
  show ?thesis
  proof (cases v)
    case (Ref a)
    with None have nt: "target_at h a = None" by simp
    from j Ref nt obtain c where c: "heap_at h a = Some (Container c)"
      "own_keys c = (case tk of Some ks \<Rightarrow> ks | None \<Rightarrow> [])"
      by (auto simp: js_own_keys_def target_at_def split: option.splits hobj.splits)
    from c(1) have "a < length h" "h ! a = Container c"
      by (auto simp: heap_at_def split: if_splits)
    with K have "keys_once (Container c)" by (auto simp: list_all_length)
    with c(2) show ?thesis by simp
  qed (use j in \<open>auto simp: js_own_keys_def\<close>)
next
  case (Some t')
  then obtain a where a: "v = Ref a" "target_at h a = Some t'"
    by (cases v) auto
  then have "a < length h" "h ! a = Proxy t'"
    by (auto simp: target_at_def heap_at_def split: if_splits option.splits hobj.splits)
  with K have ko: "keys_once (Proxy t')" by (auto simp: list_all_length)
  from t a ko show ?thesis
    by (auto simp: traversableOwnKeys_def merge_keys_distinct split: option.splits)
qed

lemma tinv_keys_distinct:
  assumes K: "list_all keys_once h" and T: "tinv h frames"
  shows "keys_distinct frames"
proof -
  have "distinct (keys_of f)" if "f \<in> set frames" for f
  proof -
    from T that have "traversableOwnKeys h (fobj f) = Ok h (fkeys f)"
      by (simp add: tinv_def list_all_iff frame_ok_def)
    from keys_once_traversable [OF K this] show ?thesis by (simp add: keys_of_def)
  qed
  then show ?thesis by (simp add: keys_distinct_def list_all_iff)
qed

lemma links_chain:
  "links h fs \<Longrightarrow> fs \<noteq> [] \<Longrightarrow> chain h (map fobj fs) (kpath (butlast fs))"
proof (induction fs rule: links.induct)
  case (3 h f g fs)
  then show ?case by (simp add: kpath_def link_ok_def)
qed (simp_all add: kpath_def)

lemma call_record_visits:
  "call_visitor (record_visits g) h vs fr =
     (case g (fst vs) (proxy_addr (fobj (last fr))) (map fobj fr) (path_of fr) of
        (b, s') \<Rightarrow> Ok h (b, (s', snd vs @ [(proxy_addr (fobj (last fr)), map fobj fr, path_of fr)])))"
  by (simp add: call_visitor_def record_visits_def path_of_def)

lemma visits_visit:
  assumes v: "visitable h fr" and m: "df \<or> fidx (last fr) = 0"
    and J: "visits_inv h root df False vs fr"
  shows "\<exists>b vs'. call_visitor (record_visits g) h vs fr = Ok h (b, vs')
            \<and> visits_inv h root df True vs' fr"
proof -
  obtain b s' where g: "g (fst vs) (proxy_addr (fobj (last fr))) (map fobj fr) (path_of fr) = (b, s')"
    by (cases "g (fst vs) (proxy_addr (fobj (last fr))) (map fobj fr) (path_of fr)")
  define e where "e = (proxy_addr (fobj (last fr)), map fobj fr, path_of fr)"
  have c: "call_visitor (record_visits g) h vs fr = Ok h (b, (s', snd vs @ [e]))"
    by (simp add: call_record_visits g e_def)
  from v have T: "tinv h fr" and ne: "fr \<noteq> []" and ip: "isProxy h (fobj (last fr))"
    and d: "distinct (map fobj fr)" by (simp_all add: visitable_def)
  from isProxy_addr [OF ip] obtain a where a: "fobj (last fr) = Ref a" "proxy_addr (fobj (last fr)) = a"
    by blast
  from T have l: "links h fr" by (simp add: tinv_def)
  from J ne have r: "fobj (hd fr) = root" by (simp add: visits_inv_def)
  have ok: "visit_ok h root e"
    unfolding visit_ok_def e_def using ne r a ip d links_chain [OF l ne]
    by (simp add: hd_map last_map path_of_kpath)
  have pt: "pending df fr (path_of fr)" by (rule pending_top [OF ne m])
  have "visits_inv h root df True (s', snd vs @ [e]) fr"
    unfolding visits_inv_def using J ok pt r
    by (auto simp: visits_inv_def e_def)
  with c show ?thesis by blast
qed

lemma visits_pop:
  assumes T: "tinv h fr" and ne: "fr \<noteq> []" and J: "visits_inv h root df visited vs fr"
  shows "visits_inv h root df False vs (butlast fr)"
proof -
  have hd: "butlast fr \<noteq> [] \<Longrightarrow> hd (butlast fr) = hd fr"
    by (cases fr) (auto split: if_splits)
  have p: "\<not> pending df (butlast fr) (snd (snd e))"
    if K: "list_all keys_once h" and e: "e \<in> set (snd vs)" for e
  proof -
    from J K e have "(visited \<and> snd (snd e) = path_of fr) \<or> \<not> pending df fr (snd (snd e))"
      by (simp add: visits_inv_def)
    then show ?thesis
    proof
      assume "visited \<and> snd (snd e) = path_of fr"
      moreover have "keys_distinct (butlast fr)"
        by (rule tinv_keys_distinct [OF K tinv_butlast [OF T]])
      ultimately show ?thesis using not_pending_popped [OF T] by simp
    next
      assume "\<not> pending df fr (snd (snd e))"
      with pending_pop [OF T] show ?thesis by blast
    qed
  qed
  show ?thesis unfolding visits_inv_def using J ne hd p
    by (auto simp: visits_inv_def)
qed

lemma visits_push:
  assumes tp: "tpush h fr fr'" and J: "visits_inv h root df visited vs fr"
    and m: "visited \<Longrightarrow> \<not> df"
  shows "visits_inv h root df False vs fr'"
proof -
  from tp obtain j v tk where T: "tinv h fr" and ne: "fr \<noteq> []"
    and fr: "fr' = butlast fr @ [(last fr)\<lparr>fidx := Suc j, fkey := Some (keys_of (last fr) ! j)\<rparr>,
                              \<lparr>fobj = v, fkeys = tk, fidx = 0, fkey = None\<rparr>]"
    by (rule tpush_shape)
  have hd: "fobj (hd fr') = fobj (hd fr)"
  proof (cases "butlast fr")
    case Nil
    with ne have "fr = [last fr]" by (metis append_butlast_last_id append_Nil)
    then have "hd fr = last fr" by (metis list.sel(1))
    with Nil show ?thesis by (simp add: fr)
  next
    case (Cons f fs)
    then have "hd fr = f" using ne by (metis append_butlast_last_id hd_append2 list.sel(1) list.distinct(1))
    with Cons show ?thesis by (simp add: fr)
  qed
  have p: "\<not> pending df fr' (snd (snd e))"
    if K: "list_all keys_once h" and e: "e \<in> set (snd vs)" for e
  proof -
    from J K e have "(visited \<and> snd (snd e) = path_of fr) \<or> \<not> pending df fr (snd (snd e))"
      by (simp add: visits_inv_def)
    then show ?thesis
    proof
      assume a: "visited \<and> snd (snd e) = path_of fr"
      with m have "\<not> df" by simp
      moreover have "keys_distinct (butlast fr)"
        by (rule tinv_keys_distinct [OF K tinv_butlast [OF T]])
      ultimately show ?thesis using not_pending_pushed [OF tp] a by simp
    next
      assume "\<not> pending df fr (snd (snd e))"
      with pending_push [OF tp] show ?thesis by blast
    qed
  qed
  show ?thesis unfolding visits_inv_def using J ne hd p
    by (auto simp: visits_inv_def)
qed

section \<open>C6: the traversal terminates and visits once per path\<close>

text \<open>
  C6. Let the visitor leave the heap alone (it computes its result from its own state, the
  proxy, the stack and the keys, and the call is recorded). Then for every heap, every root
  and either order, \<open>traverseProxyable\<close> comes to an end: from some amount of fuel on it
  gives one and the same result, which is not the lack of fuel; cycles of proxies, patches
  and plain containers do not matter. When it returns, the heap is as before; every recorded
  call has a stack that starts at the root, ends at the visited proxy, is linked by the
  recorded keys and holds no object twice (an object already on the current path is not
  visited again and not descended into); and, the objects reporting each own key once, no
  path of keys from the root is visited twice. For \<open>v = {a: null}\<close>, \<open>p\<close> its proxy and
  \<open>p.a = p\<close>, the visitor is called exactly once, with the stack \<open>[p]\<close>.
\<close>

theorem traverse_terminates_once_per_path:
  fixes g :: "'s \<Rightarrow> addr \<Rightarrow> val list \<Rightarrow> pkey list \<Rightarrow> bool \<times> 's"
  shows "\<exists>fuel R. R \<noteq> OutOfFuel
           \<and> (\<forall>n\<ge>fuel. traverseProxyable n h root (record_visits g) df (s0, []) = R)
           \<and> (\<forall>h' s log. R = Ok h' (s, log) \<longrightarrow>
                 h' = h \<and> list_all (visit_ok h root) log
                 \<and> (list_all keys_once h \<longrightarrow> distinct (map (\<lambda>e. snd (snd e)) log)))"
proof (cases "traversableOwnKeys h root")
  case (Ok h1 tk)
  then have tk: "traversableOwnKeys h root = Ok h tk" using traversableOwnKeys_heap by blast
  define fr0 where "fr0 = [\<lparr>fobj = root, fkeys = tk, fidx = 0, fkey = None\<rparr>]"
  have e: "traverseProxyable n h root (record_visits g) df (s0, [])
           = traverse_loop n (record_visits g) df h (s0, []) fr0" for n
    by (simp add: traverseProxyable_def traverseProxyable0_def tk rbind_Ok fr0_def)
  have T: "tinv h fr0" by (simp add: tinv_def fr0_def frame_ok_def tk)
  have J: "visits_inv h root df False (s0, []) fr0"
    by (simp add: visits_inv_def fr0_def)
  define n where "n = Suc (mu h fr0)"
  have n: "(\<exists>h' e. traverse_loop n (record_visits g) df h (s0, []) fr0 = Throw h' e)
            \<or> (\<exists>vs'. traverse_loop n (record_visits g) df h (s0, []) fr0 = Ok h vs'
                  \<and> visits_inv h root df False vs' [])"
  proof -
    have "(\<not> False \<and> (\<exists>h' e. traverse_loop (Suc (mu h fr0)) (record_visits g) df h (s0, []) fr0 = Throw h' e))
            \<or> (\<exists>vs'. traverse_loop (Suc (mu h fr0)) (record_visits g) df h (s0, []) fr0 = Ok h vs'
                  \<and> visits_inv h root df False vs' [])"
    proof (rule traverse_engine [where J = "visits_inv h root df False"
          and Jv = "visits_inv h root df True", OF _ _ _ _ _ _ T J])
      show "\<exists>b vs'. call_visitor (record_visits g) h vs fr = Ok h (b, vs')
              \<and> visits_inv h root df True vs' fr"
        if "visitable h fr" "df \<or> fidx (last fr) = 0" "visits_inv h root df False vs fr" for vs fr
        using that by (rule visits_visit)
      show "visits_inv h root df False vs (butlast fr)"
        if "tinv h fr" "fr \<noteq> []" "visits_inv h root df False vs fr" for vs fr
        using that by (rule visits_pop)
      show "visits_inv h root df False vs (butlast fr)"
        if "tinv h fr" "fr \<noteq> []" "visits_inv h root df True vs fr" for vs fr
        using that by (rule visits_pop)
      show "visits_inv h root df False vs fr'"
        if "tpush h fr fr'" "visits_inv h root df False vs fr" for vs fr fr'
        using that by (rule visits_push) simp
      show "visits_inv h root df False vs fr'"
        if "tpush h fr fr'" "\<not> df" "visits_inv h root df True vs fr" for vs fr fr'
        using that(1,3) by (rule visits_push) (rule that(2))
      show "\<not> can_throw h fr" if "False" for fr
        using that ..
    qed
    then show ?thesis by (simp add: n_def)
  qed
  define R where "R = traverse_loop n (record_visits g) df h (s0, []) fr0"
  from n have ne: "R \<noteq> OutOfFuel" unfolding R_def by auto
  have mono: "traverseProxyable m h root (record_visits g) df (s0, []) = R" if "n \<le> m" for m
  proof -
    from traverse_loop_mono [OF R_def [symmetric] ne, of "m - n"] that
    show ?thesis by (simp add: e)
  qed
  have props: "h' = h \<and> list_all (visit_ok h root) log
        \<and> (list_all keys_once h \<longrightarrow> distinct (map (\<lambda>e. snd (snd e)) log))"
    if "R = Ok h' (s, log)" for h' s log
    using n that unfolding R_def [symmetric] by (auto simp: visits_inv_def)
  from ne mono props show ?thesis by blast
next
  case (Throw h1 e)
  then have "traverseProxyable n h root (record_visits g) df (s0, []) = Throw h1 e" for n
    by (simp add: traverseProxyable_def traverseProxyable0_def rbind_def)
  then show ?thesis by (intro exI [of _ 0] exI [of _ "Throw h1 e"]) simp
next
  case OutOfFuel
  then show ?thesis using traversableOwnKeys_never_fuel by blast
qed

theorem traverse_terminates_once_per_path_witness:
  "list_all keys_once heap_cycle
   \<and> traverseProxyable 4 heap_cycle (Ref 1) (record_visits always) False ((), [])
       = Ok heap_cycle ((), [(1, [Ref 1], [])])
   \<and> list_all (visit_ok heap_cycle (Ref 1)) [(1, [Ref 1], [])]
   \<and> distinct (map (\<lambda>e. snd (snd e)) [(1::addr, [Ref 1], [] :: pkey list)])"
proof -
  have k: "list_all keys_once heap_cycle" by code_simp
  have v: "traverseProxyable 4 heap_cycle (Ref 1) (record_visits always) False ((), [])
           = Ok heap_cycle ((), [(1, [Ref 1], [])])" by code_simp
  from traverse_terminates_once_per_path [of heap_cycle "Ref 1" always False "()"]
  obtain fuel R where r: "R \<noteq> OutOfFuel"
    and m: "\<forall>n\<ge>fuel. traverseProxyable n heap_cycle (Ref 1) (record_visits always) False ((), []) = R"
    and p: "\<forall>h' s log. R = Ok h' (s, log) \<longrightarrow>
                 h' = heap_cycle \<and> list_all (visit_ok heap_cycle (Ref 1)) log
                 \<and> (list_all keys_once heap_cycle \<longrightarrow> distinct (map (\<lambda>e. snd (snd e)) log))"
    by blast
  have up: "traverseProxyable (4 + j) heap_cycle (Ref 1) (record_visits always) False ((), [])
           = Ok heap_cycle ((), [(1, [Ref 1], [])])" for j
    by (rule traverseProxyable_mono [OF v]) simp
  have "traverseProxyable (4 + fuel) heap_cycle (Ref 1) (record_visits always) False ((), []) = R"
    using m by simp
  with up [of fuel] have R: "R = Ok heap_cycle ((), [(1, [Ref 1], [])])" by simp
  from p R k have "list_all (visit_ok heap_cycle (Ref 1)) [(1, [Ref 1], [])]
     \<and> distinct (map (\<lambda>e. snd (snd e)) [(1::addr, [Ref 1], [] :: pkey list)])" by blast
  with k v show ?thesis by blast
qed

section \<open>Proxies that were only read\<close>




































section \<open>C1: the snapshot of a proxy that was only read\<close>



end
